theory Spec2Isabelle
  imports Main "HOL-Library.Word" "HOL-Library.AList"
begin

unbundle bit_operations_syntax

section \<open>Bytes, exceptions and the struct module\<close>

text \<open>
  The model follows \<^verbatim>\<open>RelayNetworkClient.py\<close> under Python 3: a \<^verbatim>\<open>bytes\<close> object is
  a list of 8-bit words and indexing it yields an integer. Lengths, read positions and
  decoded unsigned fields are never negative and are natural numbers; the insertion
  ids of the cache take part in subtractions and are integers. The optional
  \<^verbatim>\<open>bitcoin.core\<close> import is taken as absent (\<^verbatim>\<open>deserialize_utils = False\<close>), so the
  pretty-printing branches are not part of the model; \<^verbatim>\<open>print\<close> and the
  \<^verbatim>\<open>wire_bytes\<close> counter that only feeds it are left out.
\<close>

type_synonym byte = "8 word"
type_synonym bytes = "byte list"

text \<open>The exceptions the modelled code can raise, by their Python class.\<close>

datatype error = KeyError | AttributeError | NameError | StructError | OSError | ProtocolError

text \<open>Big-endian and little-endian readings of a byte string, as \<^verbatim>\<open>struct.unpack\<close> computes them.\<close>

definition be_nat :: "bytes \<Rightarrow> nat" where
  "be_nat bs = foldl (\<lambda>a b. a * 256 + unat b) 0 bs"

fun le_nat :: "bytes \<Rightarrow> nat" where
  "le_nat [] = 0"
| "le_nat (b # bs) = unat b + 256 * le_nat bs"

text \<open>The \<open>n\<close> bytes of a value, most significant first and least significant first.\<close>

fun be_bytes :: "nat \<Rightarrow> int \<Rightarrow> bytes" where
  "be_bytes 0 v = []"
| "be_bytes (Suc n) v = word_of_int (drop_bit (8 * n) v) # be_bytes n v"

fun le_bytes :: "nat \<Rightarrow> int \<Rightarrow> bytes" where
  "le_bytes 0 v = []"
| "le_bytes (Suc n) v = word_of_int v # le_bytes n (drop_bit 8 v)"

text \<open>
  \<^verbatim>\<open>struct.pack\<close> of one unsigned field of \<open>n\<close> bytes raises \<^verbatim>\<open>struct.error\<close> when the value
  is negative or does not fit.
\<close>

definition pack_be :: "nat \<Rightarrow> int \<Rightarrow> error + bytes" where
  "pack_be n v = (if 0 \<le> v \<and> v < 2 ^ (8 * n) then Inr (be_bytes n v) else Inl StructError)"

definition pack_le :: "nat \<Rightarrow> int \<Rightarrow> error + bytes" where
  "pack_le n v = (if 0 \<le> v \<and> v < 2 ^ (8 * n) then Inr (le_bytes n v) else Inl StructError)"

text \<open>\<^verbatim>\<open>pack('>H', v)\<close>, \<^verbatim>\<open>pack('>HB', a, b)\<close> and \<^verbatim>\<open>pack('>3I', a, b, c)\<close>.\<close>

definition pack_H :: "int \<Rightarrow> error + bytes" where
  "pack_H v = pack_be 2 v"

definition pack_HB :: "int \<Rightarrow> int \<Rightarrow> error + bytes" where
  "pack_HB a b =
     (case pack_be 2 a of
        Inl e \<Rightarrow> Inl e
      | Inr x \<Rightarrow> (case pack_be 1 b of Inl e \<Rightarrow> Inl e | Inr y \<Rightarrow> Inr (x @ y)))"

definition pack_3I :: "int \<Rightarrow> int \<Rightarrow> int \<Rightarrow> error + bytes" where
  "pack_3I a b c =
     (case pack_be 4 a of
        Inl e \<Rightarrow> Inl e
      | Inr x \<Rightarrow>
          (case pack_be 4 b of
             Inl e \<Rightarrow> Inl e
           | Inr y \<Rightarrow> (case pack_be 4 c of Inl e \<Rightarrow> Inl e | Inr z \<Rightarrow> Inr (x @ y @ z))))"

text \<open>
  \<^verbatim>\<open>unpack\<close> raises \<^verbatim>\<open>struct.error\<close> unless the buffer has exactly the size of the format:
  \<^verbatim>\<open>unpack('>H', d)\<close>, \<^verbatim>\<open>unpack('>HB', d)\<close> and \<^verbatim>\<open>unpack('>3I', d)\<close>.
\<close>

definition unpack_H :: "bytes \<Rightarrow> error + nat" where
  "unpack_H d = (if length d = 2 then Inr (be_nat d) else Inl StructError)"

definition unpack_HB :: "bytes \<Rightarrow> error + nat \<times> nat" where
  "unpack_HB d =
     (if length d = 3 then Inr (be_nat (take 2 d), be_nat (drop 2 d)) else Inl StructError)"

definition unpack_3I :: "bytes \<Rightarrow> error + nat \<times> nat \<times> nat" where
  "unpack_3I d =
     (if length d = 12
      then Inr (be_nat (take 4 d), be_nat (take 4 (drop 4 d)), be_nat (drop 8 d))
      else Inl StructError)"


section \<open>FlaggedArraySet\<close>

text \<open>
  \<^verbatim>\<open>backing_dict\<close> is an \<^verbatim>\<open>OrderedDict\<close>: an association list in insertion order, where
  assigning to a present key keeps its place and assigning to a new key appends
  (\<^const>\<open>AList.update\<close>). \<^verbatim>\<open>backing_reverse_dict\<close> is a plain \<^verbatim>\<open>dict\<close>, read only through
  lookups; it is an association list as well, so that it is finite as a dictionary is.
  The field \<^verbatim>\<open>total\<close> is named \<open>total_c\<close>; the set \<^verbatim>\<open>indexes_removed\<close> is never
  read or written after the constructor and is left out.
\<close>

type_synonym entry = "bytes \<times> bool"

record FlaggedArraySet =
  max_size :: int
  backing_dict :: "(entry \<times> int) list"
  backing_reverse_dict :: "(int \<times> entry) list"
  offset :: int
  total_c :: int
  flag_count :: int

text \<open>The constructor \<^verbatim>\<open>FlaggedArraySet(max_size)\<close>.\<close>

definition FlaggedArraySet_init :: "int \<Rightarrow> FlaggedArraySet" where
  "FlaggedArraySet_init n =
     \<lparr>max_size = n, backing_dict = [], backing_reverse_dict = [], offset = 0, total_c = 0,
      flag_count = 0\<rparr>"

definition len :: "FlaggedArraySet \<Rightarrow> int" where
  "len c = int (length (backing_dict c))"

definition get_flag_count :: "FlaggedArraySet \<Rightarrow> int" where
  "get_flag_count c = flag_count c"

definition contains :: "FlaggedArraySet \<Rightarrow> bytes \<Rightarrow> bool" where
  "contains c e \<longleftrightarrow>
     (e, False) \<in> fst ` set (backing_dict c) \<or> (e, True) \<in> fst ` set (backing_dict c)"

text \<open>
  A mutating method returns the exception it raised, if any, together with the object
  as the call left it: Python does not undo the assignments made before a \<^verbatim>\<open>raise\<close>.

  The loop of \<^verbatim>\<open>removed_from_backing_dict\<close> over the positions
  \<^verbatim>\<open>range(index - 1, offset - 1, -1)\<close>, given as a list.
\<close>

fun removed_from_backing_dict_loop ::
  "FlaggedArraySet \<Rightarrow> int list \<Rightarrow> error option \<times> FlaggedArraySet" where
  "removed_from_backing_dict_loop c [] = (None, c)"
| "removed_from_backing_dict_loop c (i # is) =
     (case map_of (backing_reverse_dict c) i of
        None \<Rightarrow> (Some KeyError, c)
      | Some e \<Rightarrow>
          removed_from_backing_dict_loop
            (c\<lparr>backing_dict := AList.update e (i + 1) (backing_dict c),
               backing_reverse_dict :=
                 AList.update (i + 1) e (AList.delete i (backing_reverse_dict c))\<rparr>) is)"

definition removed_from_backing_dict ::
  "FlaggedArraySet \<Rightarrow> entry \<times> int \<Rightarrow> error option \<times> FlaggedArraySet" where
  "removed_from_backing_dict c item_index_pair =
     (case map_of (backing_reverse_dict c) (snd item_index_pair) of
        None \<Rightarrow> (Some KeyError, c)
      | Some _ \<Rightarrow>
          (let c1 = c\<lparr>backing_reverse_dict :=
                        AList.delete (snd item_index_pair) (backing_reverse_dict c)\<rparr>;
               c2 = (if snd (fst item_index_pair)
                     then c1\<lparr>flag_count := flag_count c1 - 1\<rparr> else c1);
               r = (if offset c2 \<noteq> snd item_index_pair
                    then removed_from_backing_dict_loop c2
                           (rev [offset c2 .. snd item_index_pair - 1])
                    else (None, c2))
           in case fst r of
                Some e \<Rightarrow> (Some e, snd r)
              | None \<Rightarrow> (None, (snd r)\<lparr>offset := offset (snd r) + 1\<rparr>)))"

text \<open>
  The \<^verbatim>\<open>while\<close> loop of \<^verbatim>\<open>add\<close>: \<^verbatim>\<open>popitem(last=False)\<close> takes the oldest pair and raises
  \<^verbatim>\<open>KeyError\<close> on an empty dictionary. Every pass that returns deletes a key of
  \<^verbatim>\<open>backing_reverse_dict\<close>, which is why the loop ends in every state.
\<close>

function add_loop :: "FlaggedArraySet \<Rightarrow> error option \<times> FlaggedArraySet" where
  "add_loop c =
     (if len c \<ge> max_size c
      then (case backing_dict c of
              [] \<Rightarrow> (Some KeyError, c)
            | p # ps \<Rightarrow>
                (case removed_from_backing_dict (c\<lparr>backing_dict := ps\<rparr>) p of
                   (Some e, c') \<Rightarrow> (Some e, c')
                 | (None, c') \<Rightarrow> add_loop c'))
      else (None, c))"
  by pat_completeness auto
termination
proof (relation "measure (\<lambda>c. length (backing_reverse_dict c))")
  show "wf (measure (\<lambda>c. length (backing_reverse_dict c)))"
    by simp
next
  fix c :: FlaggedArraySet and p ps x and c' :: FlaggedArraySet and r :: "error option"
  assume run: "(r, c') = removed_from_backing_dict (c\<lparr>backing_dict := ps\<rparr>) p" and ok: "r = None"
  have del: "length (AList.delete k al) < length al" if "map_of al k = Some v"
    for k :: int and v :: entry and al
    using that by (induction al) (auto simp: less_Suc_eq_le length_delete_le split: if_splits)
  have upd: "length (AList.update k v al) \<le> Suc (length al)"
    for k :: int and v :: entry and al
    by (induction al) auto
  have loop: "fst (removed_from_backing_dict_loop d js) = None \<Longrightarrow>
      length (backing_reverse_dict (snd (removed_from_backing_dict_loop d js)))
        \<le> length (backing_reverse_dict d)" for d js
  proof (induction js arbitrary: d)
    case Nil
    then show ?case by simp
  next
    case (Cons i js)
    show ?case
    proof (cases "map_of (backing_reverse_dict d) i")
      case None
      with Cons.prems show ?thesis by simp
    next
      case (Some e)
      let ?d = "d\<lparr>backing_dict := AList.update e (i + 1) (backing_dict d),
                   backing_reverse_dict :=
                     AList.update (i + 1) e (AList.delete i (backing_reverse_dict d))\<rparr>"
      from Some Cons.prems have "fst (removed_from_backing_dict_loop ?d js) = None"
        by simp
      from Cons.IH [OF this]
      have "length (backing_reverse_dict (snd (removed_from_backing_dict_loop ?d js)))
              \<le> length (AList.update (i + 1) e (AList.delete i (backing_reverse_dict d)))"
        by simp
      also have "\<dots> \<le> Suc (length (AList.delete i (backing_reverse_dict d)))"
        by (rule upd)
      also have "\<dots> \<le> length (backing_reverse_dict d)"
        using del [OF Some] by simp
      finally show ?thesis using Some by simp
    qed
  qed
  from run ok obtain e where e: "map_of (backing_reverse_dict c) (snd p) = Some e"
    by (cases "map_of (backing_reverse_dict c) (snd p)")
       (auto simp: removed_from_backing_dict_def)
  from run ok e have "length (backing_reverse_dict c')
      \<le> length (AList.delete (snd p) (backing_reverse_dict c))"
    using loop [of "(if snd (fst p)
         then c\<lparr>backing_dict := ps, backing_reverse_dict := AList.delete (snd p) (backing_reverse_dict c),
                 flag_count := flag_count c - 1\<rparr>
         else c\<lparr>backing_dict := ps, backing_reverse_dict := AList.delete (snd p) (backing_reverse_dict c)\<rparr>)"
       "rev [offset c .. snd p - 1]"]
    by (auto simp: removed_from_backing_dict_def Let_def split: option.splits if_splits)
  with del [OF e] show "(c', c) \<in> measure (\<lambda>c. length (backing_reverse_dict c))"
    by simp
qed

declare add_loop.simps [simp del]

text \<open>
  \<^verbatim>\<open>add\<close>. The last statement reads the misspelt attribute \<^verbatim>\<open>self.flalg_count\<close>, which no
  object has: with \<^verbatim>\<open>flag\<close> true the call raises \<^verbatim>\<open>AttributeError\<close> after the entry has
  been stored and \<^verbatim>\<open>total\<close> advanced.
\<close>

definition add :: "FlaggedArraySet \<Rightarrow> bytes \<Rightarrow> bool \<Rightarrow> error option \<times> FlaggedArraySet" where
  "add c e flag =
     (if contains c e then (None, c)
      else (case add_loop c of
              (Some err, c1) \<Rightarrow> (Some err, c1)
            | (None, c1) \<Rightarrow>
                (let c2 = c1\<lparr>backing_dict := AList.update (e, flag) (total_c c1) (backing_dict c1),
                              backing_reverse_dict :=
                                AList.update (total_c c1) (e, flag) (backing_reverse_dict c1),
                              total_c := total_c c1 + 1\<rparr>
                 in if flag then (Some AttributeError, c2) else (None, c2))))"

text \<open>\<^verbatim>\<open>remove\<close>: \<^verbatim>\<open>del\<close> of the key found, then \<^verbatim>\<open>removed_from_backing_dict\<close>.\<close>

definition remove :: "FlaggedArraySet \<Rightarrow> bytes \<Rightarrow> error option \<times> FlaggedArraySet" where
  "remove c e =
     (case map_of (backing_dict c) (e, False) of
        Some index \<Rightarrow>
          removed_from_backing_dict
            (c\<lparr>backing_dict := AList.delete (e, False) (backing_dict c)\<rparr>) ((e, False), index)
      | None \<Rightarrow>
          (case map_of (backing_dict c) (e, True) of
             Some index \<Rightarrow>
               removed_from_backing_dict
                 (c\<lparr>backing_dict := AList.delete (e, True) (backing_dict c)\<rparr>) ((e, True), index)
           | None \<Rightarrow> (None, c)))"

definition get_index :: "FlaggedArraySet \<Rightarrow> bytes \<Rightarrow> int option" where
  "get_index c e =
     (case map_of (backing_dict c) (e, False) of
        Some i \<Rightarrow> Some (i - offset c)
      | None \<Rightarrow>
          (case map_of (backing_dict c) (e, True) of
             Some i \<Rightarrow> Some (i - offset c)
           | None \<Rightarrow> None))"

definition get_by_index :: "FlaggedArraySet \<Rightarrow> int \<Rightarrow> bytes option" where
  "get_by_index c index =
     (case map_of (backing_reverse_dict c) (index + offset c) of
        Some e \<Rightarrow> Some (fst e)
      | None \<Rightarrow> None)"

section \<open>Walking a block\<close>






section \<open>RelayNetworkClient\<close>

definition MAGIC_BYTES :: nat where "MAGIC_BYTES = 0xF2BEEF42"
definition VERSION_TYPE :: nat where "VERSION_TYPE = 0"
definition BLOCK_TYPE :: nat where "BLOCK_TYPE = 1"
definition TRANSACTION_TYPE :: nat where "TRANSACTION_TYPE = 2"
definition END_BLOCK_TYPE :: nat where "END_BLOCK_TYPE = 3"
definition MAX_VERSION_TYPE :: nat where "MAX_VERSION_TYPE = 4"
definition MAX_RELAY_TRANSACTION_BYTES :: nat where "MAX_RELAY_TRANSACTION_BYTES = 10000"
definition MAX_RELAY_OVERSIZE_TRANSACTION_BYTES :: nat where
  "MAX_RELAY_OVERSIZE_TRANSACTION_BYTES = 250000"
definition MAX_EXTRA_OVERSIZE_TRANSACTIONS :: int where "MAX_EXTRA_OVERSIZE_TRANSACTIONS = 20"

definition VERSION_STRING :: bytes where
  "VERSION_STRING = map (\<lambda>c. of_nat (of_char c)) ''prioritized panther''"

text \<open>
  The socket, seen from this side: the bytes the peer has sent and \<^verbatim>\<open>recv\<close> has not
  taken yet, the bytes handed to \<^verbatim>\<open>sendall\<close>, and whether writing works. With
  \<^verbatim>\<open>MSG_WAITALL\<close>, \<^verbatim>\<open>recv(n)\<close> returns \<open>n\<close> bytes, or fewer when the peer's bytes end.
\<close>

record socket =
  inbound :: bytes
  outbound :: bytes
  writable :: bool

definition recv :: "socket \<Rightarrow> nat \<Rightarrow> bytes \<times> socket" where
  "recv s n = (take n (inbound s), s\<lparr>inbound := drop n (inbound s)\<rparr>)"

definition sendall :: "socket \<Rightarrow> bytes \<Rightarrow> error option \<times> socket" where
  "sendall s d =
     (if writable s then (None, s\<lparr>outbound := outbound s @ d\<rparr>) else (Some OSError, s))"

text \<open>The calls made on \<^verbatim>\<open>data_recipient\<close>, in order.\<close>

datatype call = Provide_block_header bytes | Provide_block bytes | Provide_transaction bytes

record RelayNetworkClient =
  recv_transaction_cache :: FlaggedArraySet
  send_transaction_cache :: FlaggedArraySet
  relay_sock :: socket
  data_recipient :: "call list"

text \<open>\<^verbatim>\<open>except (OSError, socket.error)\<close>: the handler prints and the method goes on.\<close>

definition except_OSError :: "error option \<Rightarrow> error option" where
  "except_OSError r = (if r = Some OSError then None else r)"

text \<open>
  The client as the first lines of \<^verbatim>\<open>connect\<close> set it up: two fresh caches of capacity
  1000 and the socket; nothing has been handed to \<^verbatim>\<open>data_recipient\<close> yet.
\<close>

definition connect_init :: "socket \<Rightarrow> RelayNetworkClient" where
  "connect_init sock =
     \<lparr>recv_transaction_cache = FlaggedArraySet_init 1000,
      send_transaction_cache = FlaggedArraySet_init 1000,
      relay_sock = sock, data_recipient = []\<rparr>"

subsection \<open>provide\_transaction\<close>

text \<open>
  The admission test is \<^verbatim>\<open>A and (B or C)\<close>, evaluated left to right. \<open>C\<close> compares the
  flag count with the bare name \<^verbatim>\<open>MAX_EXTRA_OVERSIZE_TRANSACTIONS\<close>, which is an attribute
  of the class and not a global of the module: evaluating \<open>C\<close> raises \<^verbatim>\<open>NameError\<close>,
  before the \<^verbatim>\<open>try\<close> block and with the lock held.
\<close>

definition provide_transaction ::
  "RelayNetworkClient \<Rightarrow> bytes \<Rightarrow> error option \<times> RelayNetworkClient" where
  "provide_transaction s transaction_data =
     (if contains (send_transaction_cache s) transaction_data then (None, s)
      else if length transaction_data > MAX_RELAY_TRANSACTION_BYTES
      then (if length transaction_data > MAX_RELAY_OVERSIZE_TRANSACTION_BYTES then (None, s)
            else (Some NameError, s))
      else (case pack_3I (int MAGIC_BYTES) (int TRANSACTION_TYPE) (int (length transaction_data)) of
              Inl e \<Rightarrow> (Some e, s)
            | Inr relay_data \<Rightarrow>
                (case sendall (relay_sock s) (relay_data @ transaction_data) of
                   (Some e, sock) \<Rightarrow> (except_OSError (Some e), s\<lparr>relay_sock := sock\<rparr>)
                 | (None, sock) \<Rightarrow>
                     (case add (send_transaction_cache s) transaction_data
                             (length transaction_data > MAX_RELAY_OVERSIZE_TRANSACTION_BYTES) of
                        (r, c) \<Rightarrow>
                          (except_OSError r,
                           s\<lparr>relay_sock := sock, send_transaction_cache := c\<rparr>)))))"

subsection \<open>provide\_block\<close>

text \<open>
  What the loop does with one transaction once its bytes are cut out: an index
  directive and the removal from the send cache, or the inline marker, the three
  length bytes and the transaction.
\<close>

definition provide_block_directive ::
  "FlaggedArraySet \<Rightarrow> bytes \<Rightarrow> bytes \<Rightarrow> error option \<times> bytes \<times> FlaggedArraySet" where
  "provide_block_directive c relay_data transaction_data =
     (case get_index c transaction_data of
        None \<Rightarrow>
          (case pack_H 0xffff of
             Inl e \<Rightarrow> (Some e, relay_data, c)
           | Inr marker \<Rightarrow>
               (case pack_HB (drop_bit 8 (int (length transaction_data)))
                       (int (length transaction_data) AND 0xff) of
                  Inl e \<Rightarrow> (Some e, relay_data, c)
                | Inr l \<Rightarrow> (None, relay_data @ marker @ l @ transaction_data, c)))
      | Some tx_index \<Rightarrow>
          (case pack_H tx_index of
             Inl e \<Rightarrow> (Some e, relay_data, c)
           | Inr i \<Rightarrow>
               (case remove c transaction_data of (r, c') \<Rightarrow> (r, relay_data @ i, c'))))"



subsection \<open>The message loop of connect\<close>

text \<open>
  The length of an inline transaction as the receive branch computes it from the pair
  that \<^verbatim>\<open>unpack('>HB', ...)\<close> returns: \<^verbatim>\<open>data_length[0] << 8 | data_length[1]\<close>, where
  \<^verbatim>\<open><<\<close> binds tighter than \<^verbatim>\<open>|\<close>.
\<close>

definition data_length :: "nat \<times> nat \<Rightarrow> nat" where
  "data_length d = push_bit 8 (fst d) OR snd d"

text \<open>
  The loop over the directives of a \<^verbatim>\<open>BLOCK\<close> message. Its size check builds the message
  of the \<^verbatim>\<open>ProtocolError\<close> from the unbound name \<^verbatim>\<open>dat_length\<close>, so what the statement
  raises is \<^verbatim>\<open>NameError\<close>.
\<close>

fun connect_block_loop ::
  "nat \<Rightarrow> socket \<Rightarrow> bytes \<Rightarrow> FlaggedArraySet \<Rightarrow> error option \<times> socket \<times> bytes \<times> FlaggedArraySet"
  where
  "connect_block_loop 0 sock block_data c = (None, sock, block_data, c)"
| "connect_block_loop (Suc i) sock block_data c =
     (case recv sock 2 of
        (d, sock1) \<Rightarrow>
          (case unpack_H d of
             Inl e \<Rightarrow> (Some e, sock1, block_data, c)
           | Inr index \<Rightarrow>
               if index = 0xffff
               then (case recv sock1 3 of
                       (d3, sock2) \<Rightarrow>
                         (case unpack_HB d3 of
                            Inl e \<Rightarrow> (Some e, sock2, block_data, c)
                          | Inr hb \<Rightarrow>
                              if data_length hb > 1000000
                              then (Some NameError, sock2, block_data, c)
                              else (case recv sock2 (data_length hb) of
                                      (transaction_data, sock3) \<Rightarrow>
                                        connect_block_loop i sock3
                                          (block_data @ transaction_data) c)))
               else (case get_by_index c (int index) of
                       None \<Rightarrow> (Some ProtocolError, sock1, block_data, c)
                     | Some transaction_data \<Rightarrow>
                         (case remove c transaction_data of
                            (Some e, c') \<Rightarrow> (Some e, sock1, block_data, c')
                          | (None, c') \<Rightarrow>
                              connect_block_loop i sock1
                                (block_data @ transaction_data) c'))))"

text \<open>The start of \<^verbatim>\<open>block_data\<close>: the header and the transaction count as a compact size.\<close>

definition connect_block_data :: "bytes \<Rightarrow> nat \<Rightarrow> error + bytes" where
  "connect_block_data header_data n =
     (if n < 0xfd
      then (case pack_be 1 (int n) of Inl e \<Rightarrow> Inl e | Inr b \<Rightarrow> Inr (header_data @ b))
      else if n < 0xffff
      then (case pack_le 2 (int n) of Inl e \<Rightarrow> Inl e | Inr b \<Rightarrow> Inr (header_data @ [0xfd] @ b))
      else if n < 0xffffffff
      then (case pack_le 4 (int n) of Inl e \<Rightarrow> Inl e | Inr b \<Rightarrow> Inr (header_data @ [0xfe] @ b))
      else Inl ProtocolError)"

text \<open>The \<^verbatim>\<open>BLOCK_TYPE\<close> branch; \<open>n\<close> is \<^verbatim>\<open>msg_header[2]\<close>, the transaction count.\<close>

definition connect_block :: "RelayNetworkClient \<Rightarrow> nat \<Rightarrow> error option \<times> RelayNetworkClient" where
  "connect_block s n =
     (if n > 10000 then (Some ProtocolError, s)
      else (case recv (relay_sock s) 80 of
              (header_data, sock1) \<Rightarrow>
                (let s1 = s\<lparr>relay_sock := sock1,
                            data_recipient := data_recipient s @ [Provide_block_header header_data]\<rparr>
                 in case connect_block_data header_data n of
                      Inl e \<Rightarrow> (Some e, s1)
                    | Inr block_data \<Rightarrow>
                        (case connect_block_loop n sock1 block_data (recv_transaction_cache s1) of
                           (Some e, sock2, block_data', c) \<Rightarrow>
                             (Some e, s1\<lparr>relay_sock := sock2, recv_transaction_cache := c\<rparr>)
                         | (None, sock2, block_data', c) \<Rightarrow>
                             (case recv sock2 12 of
                                (d, sock3) \<Rightarrow>
                                  (let s2 = s1\<lparr>relay_sock := sock3, recv_transaction_cache := c,
                                              data_recipient :=
                                                data_recipient s1 @ [Provide_block block_data']\<rparr>
                                   in case unpack_3I d of
                                        Inl e \<Rightarrow> (Some e, s2)
                                      | Inr h \<Rightarrow>
                                          if h \<noteq> (MAGIC_BYTES, END_BLOCK_TYPE, 0)
                                          then (Some ProtocolError, s2)
                                          else (None, s2)))))))"

text \<open>
  The \<^verbatim>\<open>TRANSACTION_TYPE\<close> branch; \<open>n\<close> is \<^verbatim>\<open>msg_header[2]\<close>, the length. The flag
  handed to \<^verbatim>\<open>add\<close> compares the length with \<^verbatim>\<open>MAX_RELAY_OVERSIZE_TRANSACTION_BYTES\<close>.
\<close>

definition connect_transaction ::
  "RelayNetworkClient \<Rightarrow> nat \<Rightarrow> error option \<times> RelayNetworkClient" where
  "connect_transaction s n =
     (if n > MAX_RELAY_TRANSACTION_BYTES \<and>
         (get_flag_count (recv_transaction_cache s) \<ge> MAX_EXTRA_OVERSIZE_TRANSACTIONS \<or>
          n > MAX_RELAY_OVERSIZE_TRANSACTION_BYTES)
      then (Some ProtocolError, s)
      else (case recv (relay_sock s) n of
              (transaction_data, sock) \<Rightarrow>
                (case add (recv_transaction_cache s) transaction_data
                        (n > MAX_RELAY_OVERSIZE_TRANSACTION_BYTES) of
                   (Some e, c) \<Rightarrow> (Some e, s\<lparr>relay_sock := sock, recv_transaction_cache := c\<rparr>)
                 | (None, c) \<Rightarrow>
                     (None, s\<lparr>relay_sock := sock, recv_transaction_cache := c,
                              data_recipient :=
                                data_recipient s @ [Provide_transaction transaction_data]\<rparr>))))"

text \<open>
  One pass of the \<^verbatim>\<open>while True\<close> loop: a frame header and the branch of its type. An
  exception leaves the loop; each of the three handlers of \<^verbatim>\<open>connect\<close> then calls
  \<^verbatim>\<open>reconnect\<close>, which replaces both caches.
\<close>

definition connect_loop_body :: "RelayNetworkClient \<Rightarrow> error option \<times> RelayNetworkClient" where
  "connect_loop_body s =
     (case recv (relay_sock s) 12 of
        (d, sock) \<Rightarrow>
          (let s1 = s\<lparr>relay_sock := sock\<rparr>
           in case unpack_3I d of
                Inl e \<Rightarrow> (Some e, s1)
              | Inr (magic, type, n) \<Rightarrow>
                  if magic \<noteq> MAGIC_BYTES then (Some ProtocolError, s1)
                  else if n > 1000000 then (Some ProtocolError, s1)
                  else if type = VERSION_TYPE
                  then (case recv sock n of
                          (version, sock') \<Rightarrow>
                            if version \<noteq> VERSION_STRING
                            then (Some ProtocolError, s1\<lparr>relay_sock := sock'\<rparr>)
                            else (None, s1\<lparr>relay_sock := sock'\<rparr>))
                  else if type = BLOCK_TYPE then connect_block s1 n
                  else if type = TRANSACTION_TYPE then connect_transaction s1 n
                  else if type = MAX_VERSION_TYPE
                  then (case recv sock n of (version, sock') \<Rightarrow> (None, s1\<lparr>relay_sock := sock'\<rparr>))
                  else (Some ProtocolError, s1)))"

text \<open>The handler of \<^verbatim>\<open>connect\<close> that catches an exception, by the order of its clauses.\<close>

datatype handler = Lost_connect | Error_processing | Unknown_error

definition connect_except :: "error \<Rightarrow> handler" where
  "connect_except e =
     (if e = OSError then Lost_connect
      else if e = ProtocolError then Error_processing
      else Unknown_error)"

section \<open>Reachable caches and canonical blocks\<close>

text \<open>
  The states a cache can be in: a fresh one, and the state any call of \<^verbatim>\<open>add\<close> or
  \<^verbatim>\<open>remove\<close> leaves behind, whether the call returned or raised.
\<close>

inductive reachable :: "FlaggedArraySet \<Rightarrow> bool" where
  reachable_init: "reachable (FlaggedArraySet_init n)"
| reachable_add: "reachable c \<Longrightarrow> reachable (snd (add c e flag))"
| reachable_remove: "reachable c \<Longrightarrow> reachable (snd (remove c e))"

text \<open>
  The entries of a cache in insertion order, their payloads, and the invariant that
  ties the two dictionaries together: the payloads are distinct, the entry at position
  \<open>m\<close> has the id \<open>offset + m\<close> in both dictionaries, \<^verbatim>\<open>total\<close> is the next id, and
  the cache holds no more than \<^verbatim>\<open>max_size\<close> entries.
\<close>

definition entries :: "FlaggedArraySet \<Rightarrow> entry list" where
  "entries c = map fst (backing_dict c)"

definition payloads :: "FlaggedArraySet \<Rightarrow> bytes list" where
  "payloads c = map fst (entries c)"

definition cache_inv :: "FlaggedArraySet \<Rightarrow> bool" where
  "cache_inv c \<longleftrightarrow>
     distinct (payloads c) \<and>
     (\<forall>m<length (entries c). map_of (backing_dict c) (entries c ! m) = Some (offset c + int m)) \<and>
     (\<forall>i. map_of (backing_reverse_dict c) i =
        (if offset c \<le> i \<and> i < offset c + int (length (entries c))
         then Some (entries c ! nat (i - offset c)) else None)) \<and>
     total_c c = offset c + int (length (entries c)) \<and>
     int (length (entries c)) \<le> max 0 (max_size c)"








section \<open>The cache invariant\<close>

subsection \<open>Removal renumbers the older entries\<close>

lemma upto_rev_snoc: "rev [off .. off + int (Suc d) - 1] = (off + int d) # rev [off .. off + int d - 1]"
proof -
  have "[off .. off + int d] = [off .. off + int d - 1] @ [off + int d]"
    by (rule upto_rec2) simp
  then show ?thesis by simp
qed

lemma loop_spec:
  assumes "distinct es"
    and "set es \<subseteq> fst ` set (backing_dict c)"
    and "\<forall>m<length es. map_of (backing_reverse_dict c) (off + int m) = Some (es ! m)"
    and "map_of (backing_reverse_dict c) (off + int (length es)) = None"
  shows "\<exists>bd' r'. removed_from_backing_dict_loop c (rev [off .. off + int (length es) - 1])
           = (None, c\<lparr>backing_dict := bd', backing_reverse_dict := r'\<rparr>)
     \<and> map fst bd' = map fst (backing_dict c)
     \<and> (\<forall>m<length es. map_of bd' (es ! m) = Some (off + int m + 1))
     \<and> (\<forall>k. k \<notin> set es \<longrightarrow> map_of bd' k = map_of (backing_dict c) k)
     \<and> (\<forall>i. map_of r' i =
          (if off < i \<and> i \<le> off + int (length es) then Some (es ! nat (i - off - 1))
           else if i = off then None else map_of (backing_reverse_dict c) i))"
  using assms
proof (induction es arbitrary: c rule: rev_induct)
  case Nil
  show ?case
    apply (rule exI [of _ "backing_dict c"], rule exI [of _ "backing_reverse_dict c"])
    using Nil.prems by auto
next
  case (snoc e es)
  let ?d = "length es"
  let ?c1 = "c\<lparr>backing_dict := AList.update e (off + int ?d + 1) (backing_dict c),
      backing_reverse_dict := AList.update (off + int ?d + 1) e (AList.delete (off + int ?d) (backing_reverse_dict c))\<rparr>"
  have e_here: "map_of (backing_reverse_dict c) (off + int ?d) = Some e"
    using snoc.prems(3) by (auto simp: nth_append dest: spec [of _ ?d])
  have e_notin: "e \<notin> set es" and des: "distinct es"
    using snoc.prems(1) by auto
  have e_key: "e \<in> fst ` set (backing_dict c)"
    using snoc.prems(2) by auto
  have keys1: "map fst (backing_dict ?c1) = map fst (backing_dict c)"
    using e_key by (simp add: update_keys)
  have p2: "set es \<subseteq> fst ` set (backing_dict ?c1)"
    using snoc.prems(2) keys1 by (metis (no_types, lifting) le_sup_iff list.set_map set_append)
  have p3: "\<forall>m<length es. map_of (backing_reverse_dict ?c1) (off + int m) = Some (es ! m)"
    using snoc.prems(3) by (auto simp: update_conv' delete_conv' nth_append)
  have p4: "map_of (backing_reverse_dict ?c1) (off + int (length es)) = None"
    by (simp add: update_conv' delete_conv')
  from snoc.IH [OF des p2 p3 p4] obtain bd' r' where
    run: "removed_from_backing_dict_loop ?c1 (rev [off .. off + int ?d - 1])
           = (None, ?c1\<lparr>backing_dict := bd', backing_reverse_dict := r'\<rparr>)"
    and k: "map fst bd' = map fst (backing_dict ?c1)"
    and v: "\<forall>m<length es. map_of bd' (es ! m) = Some (off + int m + 1)"
    and u: "\<forall>k. k \<notin> set es \<longrightarrow> map_of bd' k = map_of (backing_dict ?c1) k"
    and r: "\<forall>i. map_of r' i =
          (if off < i \<and> i \<le> off + int (length es) then Some (es ! nat (i - off - 1))
           else if i = off then None else map_of (backing_reverse_dict ?c1) i)"
    by blast
  have run': "removed_from_backing_dict_loop c (rev [off .. off + int (length (es @ [e])) - 1])
           = (None, c\<lparr>backing_dict := bd', backing_reverse_dict := r'\<rparr>)"
    using run e_here upto_rev_snoc [of off ?d] by simp
  have v': "\<forall>m<length (es @ [e]). map_of bd' ((es @ [e]) ! m) = Some (off + int m + 1)"
  proof (intro allI impI)
    fix m assume "m < length (es @ [e])"
    then consider "m < length es" | "m = length es" by fastforce
    then show "map_of bd' ((es @ [e]) ! m) = Some (off + int m + 1)"
    proof cases
      case 1
      with v show ?thesis by (simp add: nth_append)
    next
      case 2
      from u [rule_format, OF e_notin] have "map_of bd' e = Some (off + int ?d + 1)"
        by (simp add: update_conv')
      with 2 show ?thesis by simp
    qed
  qed
  have u': "\<forall>k. k \<notin> set (es @ [e]) \<longrightarrow> map_of bd' k = map_of (backing_dict c) k"
  proof (intro allI impI)
    fix k assume "k \<notin> set (es @ [e])"
    then have "k \<notin> set es" "k \<noteq> e" by auto
    with u [rule_format, of k] show "map_of bd' k = map_of (backing_dict c) k"
      by (simp add: update_conv')
  qed
  have r'': "\<forall>i. map_of r' i =
          (if off < i \<and> i \<le> off + int (length (es @ [e])) then Some ((es @ [e]) ! nat (i - off - 1))
           else if i = off then None else map_of (backing_reverse_dict c) i)"
  proof
    fix i
    show "map_of r' i =
          (if off < i \<and> i \<le> off + int (length (es @ [e])) then Some ((es @ [e]) ! nat (i - off - 1))
           else if i = off then None else map_of (backing_reverse_dict c) i)"
      using r [rule_format, of i] snoc.prems(4)
      by (auto simp: nth_append update_conv' delete_conv' nat_less_iff)
  qed
  show ?case
    apply (rule exI [of _ bd'], rule exI [of _ r'])
    using run' k keys1 v' u' r'' by simp
qed


lemma removeAll_nth_distinct:
  "distinct ks \<Longrightarrow> m < length ks \<Longrightarrow> removeAll (ks ! m) ks = take m ks @ drop (Suc m) ks"
proof -
  assume d: "distinct ks" and m: "m < length ks"
  have split: "ks = take m ks @ ks ! m # drop (Suc m) ks"
    using m by (rule id_take_nth_drop)
  with d have "distinct (take m ks @ ks ! m # drop (Suc m) ks)" by simp
  then have "ks ! m \<notin> set (take m ks)" "ks ! m \<notin> set (drop (Suc m) ks)"
    by auto
  then have "removeAll (ks ! m) (take m ks @ ks ! m # drop (Suc m) ks)
      = take m ks @ drop (Suc m) ks"
    by simp
  with split show ?thesis by simp
qed

lemma distinct_skip: "distinct xs \<Longrightarrow> distinct (take m xs @ drop (Suc m) xs)"
proof -
  assume d: "distinct xs"
  then have "distinct (take m xs @ drop m xs)" by simp
  then have "set (take m xs) \<inter> set (drop m xs) = {}"
    unfolding distinct_append by blast
  moreover have "set (drop (Suc m) xs) \<subseteq> set (drop m xs)"
    by (rule set_drop_subset_set_drop) simp
  ultimately have "set (take m xs) \<inter> set (drop (Suc m) xs) = {}" by blast
  with d show ?thesis by simp
qed

lemma nth_skip:
  "m < length ks \<Longrightarrow> j < length ks - 1 \<Longrightarrow>
   (take m ks @ drop (Suc m) ks) ! j = (if j < m then ks ! j else ks ! Suc j)"
  by (auto simp: nth_append min_def)

lemma cache_inv_distinct_entries: "cache_inv c \<Longrightarrow> distinct (entries c)"
  by (simp add: cache_inv_def payloads_def distinct_map)

lemma map_of_absent: "k \<notin> set (entries c) \<Longrightarrow> map_of (backing_dict c) k = None"
  by (simp add: entries_def map_of_eq_None_iff)

lemma map_of_present:
  "cache_inv c \<Longrightarrow> m < length (entries c) \<Longrightarrow>
   map_of (backing_dict c) (entries c ! m) = Some (offset c + int m)"
  by (simp add: cache_inv_def)

lemma other_flag_absent:
  assumes "cache_inv c" and "m < length (entries c)"
  shows "(fst (entries c ! m), \<not> snd (entries c ! m)) \<notin> set (entries c)"
proof
  assume "(fst (entries c ! m), \<not> snd (entries c ! m)) \<in> set (entries c)"
  then obtain j where j: "j < length (entries c)"
    and e: "entries c ! j = (fst (entries c ! m), \<not> snd (entries c ! m))"
    by (auto simp: in_set_conv_nth)
  have "payloads c ! j = payloads c ! m"
    using j e assms(2) by (simp add: payloads_def)
  moreover have "distinct (payloads c)" "j < length (payloads c)" "m < length (payloads c)"
    using assms j by (simp_all add: cache_inv_def payloads_def)
  ultimately have "j = m"
    by (simp add: nth_eq_iff_index_eq)
  with e show False by (cases "entries c ! m") auto
qed

lemma removed_from_backing_dict_spec:
  assumes inv: "cache_inv c" and m: "m < length (entries c)"
  defines "k \<equiv> entries c ! m"
  shows "\<exists>c'. removed_from_backing_dict
            (c\<lparr>backing_dict := AList.delete k (backing_dict c)\<rparr>) (k, offset c + int m) = (None, c')
     \<and> entries c' = take m (entries c) @ drop (Suc m) (entries c)
     \<and> cache_inv c'
     \<and> offset c' = offset c + 1 \<and> total_c c' = total_c c \<and> max_size c' = max_size c
     \<and> flag_count c' = flag_count c - (if snd k then 1 else 0)"
proof -
  let ?ks = "entries c"
  let ?n = "length ?ks"
  let ?off = "offset c"
  let ?es = "take m ?ks"
  define fl where "fl = flag_count c - (if snd k then 1 else 0)"
  let ?c2 = "c\<lparr>backing_dict := AList.delete k (backing_dict c),
      backing_reverse_dict := AList.delete (?off + int m) (backing_reverse_dict c),
      flag_count := fl\<rparr>"
  have dks: "distinct ?ks" using inv by (rule cache_inv_distinct_entries)
  have rev_c: "map_of (backing_reverse_dict c) i =
        (if ?off \<le> i \<and> i < ?off + int ?n then Some (?ks ! nat (i - ?off)) else None)" for i
    using inv by (simp add: cache_inv_def)
  have len_es: "length ?es = m" using m by simp
  have k_notin: "k \<notin> set ?es"
    using dks m unfolding k_def
    by (auto simp: in_set_conv_nth nth_eq_iff_index_eq)
  have keys2: "map fst (backing_dict ?c2) = take m ?ks @ drop (Suc m) ?ks"
    using removeAll_nth_distinct [OF dks m] by (simp add: delete_keys entries_def k_def)
  have a1: "distinct ?es" using dks by simp
  have a2: "set ?es \<subseteq> fst ` set (backing_dict ?c2)"
  proof -
    have "set ?es \<subseteq> set (map fst (backing_dict ?c2))"
      unfolding keys2 by auto
    then show ?thesis by simp
  qed
  have a3: "\<forall>j<length ?es. map_of (backing_reverse_dict ?c2) (?off + int j) = Some (?es ! j)"
    using m by (auto simp: delete_conv' rev_c)
  have a4: "map_of (backing_reverse_dict ?c2) (?off + int (length ?es)) = None"
    using m by (simp add: delete_conv')
  from loop_spec [OF a1 a2 a3 a4] obtain bd' r' where
    run: "removed_from_backing_dict_loop ?c2 (rev [?off .. ?off + int m - 1])
           = (None, ?c2\<lparr>backing_dict := bd', backing_reverse_dict := r'\<rparr>)"
    and keys: "map fst bd' = map fst (backing_dict ?c2)"
    and v: "\<forall>j<m. map_of bd' (?es ! j) = Some (?off + int j + 1)"
    and u: "\<forall>x. x \<notin> set ?es \<longrightarrow> map_of bd' x = map_of (backing_dict ?c2) x"
    and r: "\<forall>i. map_of r' i =
          (if ?off < i \<and> i \<le> ?off + int m then Some (?es ! nat (i - ?off - 1))
           else if i = ?off then None else map_of (backing_reverse_dict ?c2) i)"
    unfolding len_es by blast
  define c' where
    "c' = ?c2\<lparr>backing_dict := bd', backing_reverse_dict := r', offset := ?off + 1\<rparr>"
  have fields: "backing_dict c' = bd'" "backing_reverse_dict c' = r'" "offset c' = ?off + 1"
    "total_c c' = total_c c" "max_size c' = max_size c" "flag_count c' = fl"
    by (simp_all add: c'_def)
  have branch: "(if ?off \<noteq> ?off + int m
        then removed_from_backing_dict_loop ?c2 (rev [?off .. ?off + int m - 1])
        else (None, ?c2)) = removed_from_backing_dict_loop ?c2 (rev [?off .. ?off + int m - 1])"
    by (cases "m = 0") auto
  have present: "map_of (backing_reverse_dict c) (?off + int m) = Some k"
    using m by (simp add: rev_c k_def)
  define R where "R = (if ?off \<noteq> ?off + int m
        then removed_from_backing_dict_loop ?c2 (rev [?off .. ?off + int m - 1])
        else (None, ?c2))"
  have step: "removed_from_backing_dict
      (c\<lparr>backing_dict := AList.delete k (backing_dict c)\<rparr>) (k, ?off + int m)
      = (case fst R of Some e \<Rightarrow> (Some e, snd R)
         | None \<Rightarrow> (None, (snd R)\<lparr>offset := offset (snd R) + 1\<rparr>))"
    unfolding R_def fl_def using present
    by (cases "snd k") (simp_all add: removed_from_backing_dict_def Let_def cong: option.case_cong)
  have R_eq: "R = (None, ?c2\<lparr>backing_dict := bd', backing_reverse_dict := r'\<rparr>)"
    unfolding R_def by (subst branch) (rule run)
  have result: "removed_from_backing_dict
      (c\<lparr>backing_dict := AList.delete k (backing_dict c)\<rparr>) (k, ?off + int m) = (None, c')"
    by (simp add: step R_eq c'_def)
  have ent: "entries c' = take m ?ks @ drop (Suc m) ?ks"
    using keys keys2 by (simp add: entries_def fields)
  have len': "length (entries c') = ?n - 1"
    using m by (simp add: ent)
  have i1: "distinct (payloads c')"
  proof -
    have "distinct (map fst ?ks)" using inv by (simp add: cache_inv_def payloads_def)
    then have "distinct (take m (map fst ?ks) @ drop (Suc m) (map fst ?ks))"
      by (rule distinct_skip)
    then show ?thesis by (simp add: payloads_def ent take_map drop_map)
  qed
  have i2: "\<forall>j<length (entries c'). map_of (backing_dict c') (entries c' ! j)
      = Some (offset c' + int j)"
  proof (intro allI impI)
    fix j assume j: "j < length (entries c')"
    then have j': "j < ?n - 1" using len' by simp
    show "map_of (backing_dict c') (entries c' ! j) = Some (offset c' + int j)"
    proof (cases "j < m")
      case True
      then have "entries c' ! j = ?es ! j"
        using nth_skip [OF m j'] m by (simp add: ent)
      with v True show ?thesis by (simp add: fields)
    next
      case False
      then have e: "entries c' ! j = ?ks ! Suc j"
        using nth_skip [OF m j'] by (simp add: ent)
      have sj: "Suc j < ?n" using j' by simp
      have "?ks ! Suc j \<notin> set ?es"
      proof
        assume "?ks ! Suc j \<in> set ?es"
        then obtain i where "i < m" "?ks ! i = ?ks ! Suc j"
          using m by (auto simp: in_set_conv_nth)
        with dks sj m False show False
          by (simp add: nth_eq_iff_index_eq)
      qed
      moreover have "?ks ! Suc j \<noteq> k"
        using dks sj m False by (simp add: k_def nth_eq_iff_index_eq)
      ultimately have "map_of bd' (?ks ! Suc j) = map_of (backing_dict c) (?ks ! Suc j)"
        using u [rule_format, of "?ks ! Suc j"] by (simp add: delete_conv')
      also have "\<dots> = Some (?off + int (Suc j))"
        using inv sj by (rule map_of_present)
      finally show ?thesis using e by (simp add: fields)
    qed
  qed
  have i3: "\<forall>i. map_of (backing_reverse_dict c') i =
        (if offset c' \<le> i \<and> i < offset c' + int (length (entries c'))
         then Some (entries c' ! nat (i - offset c')) else None)"
  proof
    fix i
    consider "i \<le> ?off" | "?off < i" "i \<le> ?off + int m" | "?off + int m < i" "i < ?off + int ?n"
      | "?off + int ?n \<le> i"
      by linarith
    then show "map_of (backing_reverse_dict c') i =
        (if offset c' \<le> i \<and> i < offset c' + int (length (entries c'))
         then Some (entries c' ! nat (i - offset c')) else None)"
    proof cases
      case 1
      then show ?thesis using r [rule_format, of i] by (auto simp: delete_conv' rev_c fields)
    next
      case 2
      define j where "j = nat (i - ?off - 1)"
      have i_eq: "i = ?off + 1 + int j" and jm: "j < m" and jn: "j < ?n - 1"
        using 2 m by (simp_all add: j_def)
      from nth_skip [OF m jn] jm have "entries c' ! j = ?ks ! j"
        by (simp add: ent)
      then show ?thesis
        unfolding i_eq using r [rule_format, of "?off + 1 + int j"] m jm jn len'
        by (simp add: fields)
    next
      case 3
      define j where "j = nat (i - ?off - 1)"
      have i_eq: "i = ?off + 1 + int j" and jm: "\<not> j < m" and jn: "j < ?n - 1"
        using 3 m by (simp_all add: j_def)
      from nth_skip [OF m jn] jm have "entries c' ! j = ?ks ! Suc j"
        by (simp add: ent)
      moreover have "nat (1 + int j) = Suc j" by simp
      ultimately show ?thesis
        unfolding i_eq using r [rule_format, of "?off + 1 + int j"] m jm jn len'
        by (simp add: delete_conv' rev_c fields)
    next
      case 4
      then show ?thesis
        using r [rule_format, of i] m len' by (simp add: delete_conv' rev_c fields)
    qed
  qed
  have i4: "total_c c' = offset c' + int (length (entries c'))"
    using inv m len' by (simp add: cache_inv_def fields)
  have i5: "int (length (entries c')) \<le> max 0 (max_size c')"
    using inv m len' by (simp add: cache_inv_def fields)
  have "cache_inv c'"
    unfolding cache_inv_def using i1 i2 i3 i4 i5 by blast
  with result ent show ?thesis
    by (intro exI [of _ c']) (simp add: fl_def fields)
qed

subsection \<open>Lookups and removal under the invariant\<close>

lemma contains_iff: "contains c p \<longleftrightarrow> p \<in> set (payloads c)"
  by (force simp: contains_def payloads_def entries_def)

lemma len_entries: "len c = int (length (entries c))"
  by (simp add: len_def entries_def)

lemma length_payloads: "length (payloads c) = length (entries c)"
  by (simp add: payloads_def)

lemma payloads_nth: "m < length (entries c) \<Longrightarrow> payloads c ! m = fst (entries c ! m)"
  by (simp add: payloads_def)

lemma lookup_at:
  assumes inv: "cache_inv c" and m: "m < length (entries c)"
  shows "map_of (backing_dict c) (payloads c ! m, snd (entries c ! m)) = Some (offset c + int m)"
    and "map_of (backing_dict c) (payloads c ! m, \<not> snd (entries c ! m)) = None"
proof -
  have "(payloads c ! m, snd (entries c ! m)) = entries c ! m"
    using m by (simp add: payloads_nth)
  then show "map_of (backing_dict c) (payloads c ! m, snd (entries c ! m)) = Some (offset c + int m)"
    using map_of_present [OF inv m] by simp
  have "(payloads c ! m, \<not> snd (entries c ! m)) \<notin> set (entries c)"
    using other_flag_absent [OF inv m] m by (simp add: payloads_nth)
  then show "map_of (backing_dict c) (payloads c ! m, \<not> snd (entries c ! m)) = None"
    by (rule map_of_absent)
qed

lemma get_index_present:
  assumes "cache_inv c" and "m < length (entries c)"
  shows "get_index c (payloads c ! m) = Some (int m)"
  using lookup_at [OF assms]
  by (cases "snd (entries c ! m)") (simp_all add: get_index_def)

lemma lookup_absent:
  "p \<notin> set (payloads c) \<Longrightarrow> map_of (backing_dict c) (p, f) = None"
  by (rule map_of_absent) (force simp: payloads_def)

lemma get_index_absent: "p \<notin> set (payloads c) \<Longrightarrow> get_index c p = None"
  by (simp add: get_index_def lookup_absent)

lemma get_index_Some_iff:
  assumes "cache_inv c"
  shows "get_index c p = Some i \<longleftrightarrow> (\<exists>m<length (entries c). i = int m \<and> payloads c ! m = p)"
proof (cases "p \<in> set (payloads c)")
  case True
  then obtain m where m: "m < length (entries c)" "payloads c ! m = p"
    by (auto simp: in_set_conv_nth length_payloads)
  have d: "distinct (payloads c)" using assms by (simp add: cache_inv_def)
  have uniq: "m' = m" if "m' < length (entries c)" "payloads c ! m' = p" for m'
    using that m d nth_eq_iff_index_eq [of "payloads c" m' m] by (simp add: length_payloads)
  have g: "get_index c p = Some (int m)"
    using get_index_present [OF assms m(1)] m(2) by simp
  show ?thesis
  proof
    assume "get_index c p = Some i"
    with g have "i = int m" by simp
    with m show "\<exists>m<length (entries c). i = int m \<and> payloads c ! m = p" by blast
  next
    assume "\<exists>m<length (entries c). i = int m \<and> payloads c ! m = p"
    then obtain m' where "m' < length (entries c)" "i = int m'" "payloads c ! m' = p" by blast
    with uniq [of m'] g show "get_index c p = Some i" by simp
  qed
next
  case False
  then have g: "get_index c p = None" by (rule get_index_absent)
  have "payloads c ! m \<noteq> p" if "m < length (entries c)" for m
  proof
    assume "payloads c ! m = p"
    moreover have "payloads c ! m \<in> set (payloads c)"
      using that by (simp add: length_payloads)
    ultimately show False using False by simp
  qed
  with g show ?thesis by auto
qed

lemma get_by_index_inv:
  assumes "cache_inv c"
  shows "get_by_index c i =
     (if 0 \<le> i \<and> i < len c then Some (payloads c ! nat i) else None)"
proof -
  have "map_of (backing_reverse_dict c) (i + offset c) =
        (if 0 \<le> i \<and> i < int (length (entries c)) then Some (entries c ! nat i) else None)"
    using assms by (simp add: cache_inv_def)
  moreover have "payloads c ! nat i = fst (entries c ! nat i)"
    if "0 \<le> i" "i < int (length (entries c))"
    using that by (intro payloads_nth) linarith
  ultimately show ?thesis
    by (simp add: get_by_index_def len_entries)
qed

lemma remove_present:
  assumes inv: "cache_inv c" and m: "m < length (entries c)"
  shows "\<exists>c'. remove c (payloads c ! m) = (None, c')
     \<and> entries c' = take m (entries c) @ drop (Suc m) (entries c)
     \<and> cache_inv c'
     \<and> offset c' = offset c + 1 \<and> total_c c' = total_c c \<and> max_size c' = max_size c
     \<and> flag_count c' = flag_count c - (if snd (entries c ! m) then 1 else 0)"
proof -
  have k: "(payloads c ! m, snd (entries c ! m)) = entries c ! m"
    using m by (simp add: payloads_nth)
  have "remove c (payloads c ! m) =
      removed_from_backing_dict
        (c\<lparr>backing_dict := AList.delete (entries c ! m) (backing_dict c)\<rparr>)
        (entries c ! m, offset c + int m)"
    using lookup_at [OF inv m] k
    by (cases "snd (entries c ! m)") (simp_all add: remove_def)
  with removed_from_backing_dict_spec [OF inv m] show ?thesis by simp
qed

lemma remove_absent: "p \<notin> set (payloads c) \<Longrightarrow> remove c p = (None, c)"
  by (simp add: remove_def lookup_absent)

lemma payloads_skip:
  "entries c' = take m (entries c) @ drop (Suc m) (entries c) \<Longrightarrow>
   payloads c' = take m (payloads c) @ drop (Suc m) (payloads c)"
  by (simp add: payloads_def take_map drop_map)

lemma cache_inv_init: "cache_inv (FlaggedArraySet_init n)"
  by (simp add: cache_inv_def FlaggedArraySet_init_def payloads_def entries_def)

lemma cache_inv_remove: "cache_inv c \<Longrightarrow> cache_inv (snd (remove c p))"
proof (cases "p \<in> set (payloads c)")
  case True
  assume inv: "cache_inv c"
  from True obtain m where "m < length (entries c)" "payloads c ! m = p"
    by (auto simp: in_set_conv_nth length_payloads)
  with remove_present [OF inv this(1)] show ?thesis by auto
next
  case False
  assume "cache_inv c"
  with False show ?thesis by (simp add: remove_absent)
qed

subsection \<open>Eviction and insertion under the invariant\<close>

lemma delete_hd:
  "distinct (map fst (p # ps)) \<Longrightarrow> AList.delete (fst p) (p # ps) = ps"
proof -
  assume "distinct (map fst (p # ps))"
  then have "fst p \<notin> fst ` set ps" by simp
  then have "AList.delete (fst p) ps = ps"
    by (induction ps) auto
  then show ?thesis by (cases p) simp
qed

lemma add_loop_room: "len c < max_size c \<Longrightarrow> add_loop c = (None, c)"
  by (simp add: add_loop.simps)

lemma add_loop_empty:
  "max_size c \<le> len c \<Longrightarrow> backing_dict c = [] \<Longrightarrow> add_loop c = (Some KeyError, c)"
  by (simp add: add_loop.simps)

lemma add_loop_full:
  assumes inv: "cache_inv c" and full: "max_size c \<le> len c" and ne: "backing_dict c \<noteq> []"
  shows "\<exists>c'. add_loop c = (None, c')
     \<and> entries c' = tl (entries c) \<and> cache_inv c'
     \<and> offset c' = offset c + 1 \<and> total_c c' = total_c c \<and> max_size c' = max_size c
     \<and> flag_count c' = flag_count c - (if snd (hd (entries c)) then 1 else 0)
     \<and> len c' < max_size c'"
proof -
  from ne obtain p ps where bd: "backing_dict c = p # ps" by (cases "backing_dict c") auto
  have m: "0 < length (entries c)" using bd by (simp add: entries_def)
  have e0: "entries c ! 0 = fst p" using bd by (simp add: entries_def)
  have "distinct (map fst (backing_dict c))"
    using cache_inv_distinct_entries [OF inv] by (simp add: entries_def)
  then have del: "AList.delete (fst p) (backing_dict c) = ps"
    unfolding bd by (rule delete_hd)
  have "map_of (backing_dict c) (entries c ! 0) = Some (offset c + int 0)"
    using inv m by (rule map_of_present)
  then have sp: "snd p = offset c" using bd e0 by (cases p) simp
  from removed_from_backing_dict_spec [OF inv m] obtain c' where
    run: "removed_from_backing_dict (c\<lparr>backing_dict := ps\<rparr>) (fst p, offset c) = (None, c')"
    and ent: "entries c' = drop (Suc 0) (entries c)"
    and inv': "cache_inv c'"
    and rest: "offset c' = offset c + 1" "total_c c' = total_c c" "max_size c' = max_size c"
      "flag_count c' = flag_count c - (if snd (fst p) then 1 else 0)"
    unfolding e0 del by auto
  have "int (length (entries c)) \<le> max 0 (max_size c)"
    using inv by (simp add: cache_inv_def)
  with full m have "len c = max_size c" unfolding len_entries by linarith
  moreover have "length (entries c') = length (entries c) - 1"
    by (simp add: ent)
  ultimately have room: "len c' < max_size c'"
    using m rest(3) unfolding len_entries by linarith
  have "p = (fst p, offset c)" using sp by (cases p) simp
  then have "add_loop c = add_loop c'"
    using full bd run by (subst add_loop.simps) (simp add: sp [symmetric])
  also have "\<dots> = (None, c')" using room by (rule add_loop_room)
  finally have "add_loop c = (None, c')" .
  moreover have "hd (entries c) = fst p" using bd by (simp add: entries_def)
  ultimately show ?thesis
    using ent inv' rest room by (auto simp: drop_Suc)
qed

lemma update_fresh: "k \<notin> fst ` set al \<Longrightarrow> AList.update k v al = al @ [(k, v)]"
  by (induction al) auto

lemma add_fresh:
  fixes flag :: bool
  assumes inv: "cache_inv c" and fresh: "p \<notin> set (payloads c)" and room: "len c < max_size c"
  defines "c2 \<equiv> c\<lparr>backing_dict := AList.update (p, flag) (total_c c) (backing_dict c),
                    backing_reverse_dict := AList.update (total_c c) (p, flag) (backing_reverse_dict c),
                    total_c := total_c c + 1\<rparr>"
  shows "entries c2 = entries c @ [(p, flag)]" and "cache_inv c2"
proof -
  let ?n = "length (entries c)"
  have notkey: "(p, flag) \<notin> fst ` set (backing_dict c)"
    using fresh by (force simp: payloads_def entries_def)
  have bd2: "backing_dict c2 = backing_dict c @ [((p, flag), total_c c)]"
    using update_fresh [OF notkey] by (simp add: c2_def)
  show ent: "entries c2 = entries c @ [(p, flag)]"
    by (simp add: entries_def bd2)
  have tot: "total_c c = offset c + int ?n" using inv by (simp add: cache_inv_def)
  have fields: "offset c2 = offset c" "total_c c2 = total_c c + 1" "max_size c2 = max_size c"
    "backing_reverse_dict c2 = AList.update (total_c c) (p, flag) (backing_reverse_dict c)"
    by (simp_all add: c2_def)
  have i1: "distinct (payloads c2)"
    using inv fresh by (simp add: payloads_def ent cache_inv_def)
  have i2: "\<forall>m<length (entries c2). map_of (backing_dict c2) (entries c2 ! m)
      = Some (offset c2 + int m)"
  proof (intro allI impI)
    fix m assume "m < length (entries c2)"
    then have "m < Suc ?n" by (simp add: ent)
    then consider "m < ?n" | "m = ?n" by linarith
    then show "map_of (backing_dict c2) (entries c2 ! m) = Some (offset c2 + int m)"
    proof cases
      case 1
      then have "entries c ! m \<in> fst ` set (backing_dict c)"
        by (metis entries_def list.set_map nth_mem)
      then have "entries c ! m \<in> dom (map_of (backing_dict c))"
        by (simp add: dom_map_of_conv_image_fst)
      with 1 map_of_present [OF inv 1] show ?thesis
        by (simp add: bd2 ent nth_append fields map_add_dom_app_simps)
    next
      case 2
      have "map_of (backing_dict c) (p, flag) = None"
        using notkey by (simp add: map_of_eq_None_iff)
      with 2 show ?thesis
        by (simp add: bd2 ent fields tot map_add_def)
    qed
  qed
  have i3: "\<forall>i. map_of (backing_reverse_dict c2) i =
        (if offset c2 \<le> i \<and> i < offset c2 + int (length (entries c2))
         then Some (entries c2 ! nat (i - offset c2)) else None)"
  proof
    fix i
    have old: "map_of (backing_reverse_dict c) i =
        (if offset c \<le> i \<and> i < offset c + int ?n then Some (entries c ! nat (i - offset c)) else None)"
      using inv by (simp add: cache_inv_def)
    show "map_of (backing_reverse_dict c2) i =
        (if offset c2 \<le> i \<and> i < offset c2 + int (length (entries c2))
         then Some (entries c2 ! nat (i - offset c2)) else None)"
    proof (cases "i = total_c c")
      case True
      then show ?thesis by (simp add: fields update_conv' ent tot)
    next
      case False
      then show ?thesis
        using old by (auto simp: fields update_conv' ent tot nth_append)
    qed
  qed
  have i4: "total_c c2 = offset c2 + int (length (entries c2))"
    by (simp add: fields ent tot)
  have i5: "int (length (entries c2)) \<le> max 0 (max_size c2)"
    using room by (simp add: fields ent len_entries)
  show "cache_inv c2"
    unfolding cache_inv_def using i1 i2 i3 i4 i5 by blast
qed

text \<open>What \<^verbatim>\<open>add\<close> does to a cache that satisfies the invariant.\<close>

lemma add_present: "contains c p \<Longrightarrow> add c p flag = (None, c)"
  by (simp add: add_def)

lemma add_no_capacity:
  assumes "cache_inv c" and "\<not> contains c p" and "max_size c \<le> 0"
  shows "add c p flag = (Some KeyError, c)"
proof -
  have "int (length (entries c)) \<le> max 0 (max_size c)"
    using assms(1) by (simp add: cache_inv_def)
  with assms(3) have "backing_dict c = []" by (simp add: entries_def)
  moreover from this assms(3) have "max_size c \<le> len c" by (simp add: len_def)
  ultimately have "add_loop c = (Some KeyError, c)" by (simp add: add_loop_empty)
  with assms(2) show ?thesis by (simp add: add_def)
qed

lemma add_absent:
  fixes flag :: bool
  assumes inv: "cache_inv c" and fresh: "\<not> contains c p" and cap: "0 < max_size c"
  defines "evict \<equiv> max_size c \<le> len c"
  shows "\<exists>c'. add c p flag = (if flag then Some AttributeError else None, c')
     \<and> entries c' = (if evict then tl (entries c) else entries c) @ [(p, flag)]
     \<and> cache_inv c'
     \<and> offset c' = (if evict then offset c + 1 else offset c)
     \<and> total_c c' = total_c c + 1 \<and> max_size c' = max_size c
     \<and> flag_count c' = flag_count c - (if evict \<and> snd (hd (entries c)) then 1 else 0)"
proof -
  have "\<exists>c1. add_loop c = (None, c1)
     \<and> entries c1 = (if evict then tl (entries c) else entries c) \<and> cache_inv c1
     \<and> offset c1 = (if evict then offset c + 1 else offset c)
     \<and> total_c c1 = total_c c \<and> max_size c1 = max_size c
     \<and> flag_count c1 = flag_count c - (if evict \<and> snd (hd (entries c)) then 1 else 0)
     \<and> len c1 < max_size c1"
  proof (cases evict)
    case True
    then have full: "max_size c \<le> len c" by (simp add: evict_def)
    with cap have "backing_dict c \<noteq> []" by (auto simp: len_def)
    from add_loop_full [OF inv full this] True show ?thesis by auto
  next
    case False
    then have "len c < max_size c" by (simp add: evict_def)
    with add_loop_room [OF this] inv False show ?thesis by auto
  qed
  then obtain c1 where run: "add_loop c = (None, c1)"
    and ent1: "entries c1 = (if evict then tl (entries c) else entries c)"
    and inv1: "cache_inv c1"
    and rest: "offset c1 = (if evict then offset c + 1 else offset c)"
      "total_c c1 = total_c c" "max_size c1 = max_size c"
      "flag_count c1 = flag_count c - (if evict \<and> snd (hd (entries c)) then 1 else 0)"
    and room: "len c1 < max_size c1"
    by blast
  define c2 where "c2 = c1\<lparr>backing_dict := AList.update (p, flag) (total_c c1) (backing_dict c1),
                    backing_reverse_dict := AList.update (total_c c1) (p, flag) (backing_reverse_dict c1),
                    total_c := total_c c1 + 1\<rparr>"
  have "set (payloads c1) \<subseteq> set (payloads c)"
    using ent1 by (cases "entries c") (auto simp: payloads_def)
  with fresh have fresh1: "p \<notin> set (payloads c1)" by (auto simp: contains_iff)
  from add_fresh [OF inv1 fresh1 room, of flag]
  have ent2: "entries c2 = entries c1 @ [(p, flag)]" and inv2: "cache_inv c2"
    by (simp_all add: c2_def)
  have fields: "offset c2 = offset c1" "total_c c2 = total_c c1 + 1" "max_size c2 = max_size c1"
    "flag_count c2 = flag_count c1"
    by (simp_all add: c2_def)
  have "add c p flag = (if flag then Some AttributeError else None, c2)"
    using fresh run by (simp add: add_def c2_def Let_def)
  then show ?thesis
    using ent2 inv2 ent1 rest fields by (intro exI [of _ c2]) simp
qed

lemma cache_inv_add: "cache_inv c \<Longrightarrow> cache_inv (snd (add c p flag))"
proof -
  assume inv: "cache_inv c"
  consider "contains c p" | "\<not> contains c p" "max_size c \<le> 0" | "\<not> contains c p" "0 < max_size c"
    by linarith
  then show ?thesis
  proof cases
    case 1
    with inv show ?thesis by (simp add: add_present)
  next
    case 2
    with inv show ?thesis by (simp add: add_no_capacity)
  next
    case 3
    from add_absent [OF inv 3, of flag] show ?thesis by auto
  qed
qed

lemma reachable_cache_inv: "reachable c \<Longrightarrow> cache_inv c"
  by (induction rule: reachable.induct) (simp_all add: cache_inv_init cache_inv_add cache_inv_remove)

lemma max_size_add: "cache_inv c \<Longrightarrow> max_size (snd (add c p flag)) = max_size c"
proof -
  assume inv: "cache_inv c"
  consider "contains c p" | "\<not> contains c p" "max_size c \<le> 0" | "\<not> contains c p" "0 < max_size c"
    by linarith
  then show ?thesis
  proof cases
    case 1
    then show ?thesis by (simp add: add_present)
  next
    case 2
    with inv show ?thesis by (simp add: add_no_capacity)
  next
    case 3
    from add_absent [OF inv 3, of flag] show ?thesis by auto
  qed
qed

lemma max_size_remove: "cache_inv c \<Longrightarrow> max_size (snd (remove c p)) = max_size c"
proof (cases "p \<in> set (payloads c)")
  case True
  assume inv: "cache_inv c"
  from True obtain m where "m < length (entries c)" "payloads c ! m = p"
    by (auto simp: in_set_conv_nth length_payloads)
  with remove_present [OF inv this(1)] show ?thesis by auto
next
  case False
  then show ?thesis by (simp add: remove_absent)
qed

lemma get_index_bound:
  assumes "cache_inv c" and "get_index c p = Some i"
  shows "0 \<le> i \<and> i < len c \<and> len c \<le> max 0 (max_size c) \<and> get_by_index c i = Some p"
proof -
  from assms obtain m where m: "m < length (entries c)" "i = int m" "payloads c ! m = p"
    by (auto simp: get_index_Some_iff)
  have "int (length (entries c)) \<le> max 0 (max_size c)"
    using assms(1) by (simp add: cache_inv_def)
  with m show ?thesis
    by (simp add: get_by_index_inv [OF assms(1)] len_entries)
qed

subsection \<open>Packing and unpacking\<close>

lemma be_nat_Cons: "be_nat (b # bs) = unat b * 256 ^ length bs + be_nat bs"
proof -
  have "foldl (\<lambda>a b. a * 256 + unat b) a bs = a * 256 ^ length bs + foldl (\<lambda>a b. a * 256 + unat b) 0 bs"
    for a :: nat and bs :: bytes
    by (induction bs rule: rev_induct) (simp_all add: algebra_simps)
  from this [of "unat b" bs] show ?thesis by (simp add: be_nat_def)
qed

lemma be_nat_Nil: "be_nat [] = 0"
  by (simp add: be_nat_def)

lemma length_be_bytes: "length (be_bytes n v) = n"
  by (induction n) simp_all

lemma length_le_bytes: "length (le_bytes n v) = n"
  by (induction n arbitrary: v) simp_all

lemma unat_byte_of_int: "0 \<le> v \<Longrightarrow> unat (word_of_int v :: byte) = nat (v mod 256)"
  by (simp add: unat_eq_nat_uint uint_word_of_int take_bit_eq_mod)

lemma be_nat_be_bytes: "0 \<le> v \<Longrightarrow> be_nat (be_bytes n v) = nat (v mod 2 ^ (8 * n))"
proof (induction n)
  case 0
  show ?case by (simp add: be_nat_Nil)
next
  case (Suc n)
  define P :: int where "P = 2 ^ (8 * n)"
  have P256: "nat P = 256 ^ n" by (simp add: P_def power_mult nat_power_eq)
  have Ppos: "0 < P" by (simp add: P_def)
  have "0 \<le> v div P" using Suc.prems Ppos by (simp add: pos_imp_zdiv_nonneg_iff)
  then have hi: "unat (word_of_int (drop_bit (8 * n) v) :: byte) = nat (v div P mod 256)"
    by (simp add: unat_byte_of_int drop_bit_eq_div P_def)
  have "v mod 2 ^ (8 * Suc n) = v mod (P * 256)"
    by (simp add: P_def power_add mult.commute)
  also have "\<dots> = P * (v div P mod 256) + v mod P"
    by (rule zmod_zmult2_eq) simp
  finally have "nat (v mod 2 ^ (8 * Suc n)) = nat (v div P mod 256) * nat P + nat (v mod P)"
    using Ppos by (simp add: nat_add_distrib nat_mult_distrib mult.commute)
  moreover have "be_nat (be_bytes (Suc n) v)
      = nat (v div P mod 256) * 256 ^ n + nat (v mod P)"
    using Suc by (simp only: be_bytes.simps be_nat_Cons hi length_be_bytes P_def)
  ultimately show ?case by (simp only: P256)
qed

lemma le_nat_le_bytes: "0 \<le> v \<Longrightarrow> le_nat (le_bytes n v) = nat (v mod 2 ^ (8 * n))"
proof (induction n arbitrary: v)
  case 0
  show ?case by simp
next
  case (Suc n)
  have nn: "0 \<le> drop_bit 8 v" using Suc.prems by simp
  have "v mod 2 ^ (8 * Suc n) = v mod (256 * 2 ^ (8 * n))"
    by (simp add: power_add)
  also have "\<dots> = 256 * (v div 256 mod 2 ^ (8 * n)) + v mod 256"
    by (rule zmod_zmult2_eq) simp
  finally have "nat (v mod 2 ^ (8 * Suc n))
      = nat (v mod 256) + 256 * nat (v div 256 mod 2 ^ (8 * n))"
    by (simp add: nat_add_distrib nat_mult_distrib)
  then show ?case
    using Suc.IH [OF nn] Suc.prems by (simp add: unat_byte_of_int drop_bit_eq_div)
qed


lemma be_nat_pack: "0 \<le> v \<Longrightarrow> v < 2 ^ (8 * n) \<Longrightarrow> be_nat (be_bytes n v) = nat v"
  by (simp add: be_nat_be_bytes)

lemma le_nat_pack: "0 \<le> v \<Longrightarrow> v < 2 ^ (8 * n) \<Longrightarrow> le_nat (le_bytes n v) = nat v"
  by (simp add: le_nat_le_bytes)

lemma pack_H_ok:
  assumes "0 \<le> v" and "v < 65536"
  shows "pack_H v = Inr (be_bytes 2 v)" and "unpack_H (be_bytes 2 v) = Inr (nat v)"
proof -
  show "pack_H v = Inr (be_bytes 2 v)"
    using assms by (simp add: pack_H_def pack_be_def)
  have "be_nat (be_bytes 2 v) = nat v"
    using assms by (intro be_nat_pack) simp_all
  then show "unpack_H (be_bytes 2 v) = Inr (nat v)"
    by (simp add: unpack_H_def length_be_bytes)
qed

lemma payloads_after_remove:
  assumes inv: "cache_inv c" and m: "m < length (entries c)"
    and ent: "entries c' = take m (entries c) @ drop (Suc m) (entries c)"
    and j: "j < length (entries c)" "j \<noteq> m"
  shows "(if j < m then j else j - 1) < length (entries c')"
    and "payloads c' ! (if j < m then j else j - 1) = payloads c ! j"
proof -
  have len': "length (entries c') = length (entries c) - 1"
    using m by (simp add: ent)
  show lt: "(if j < m then j else j - 1) < length (entries c')"
    using j m len' by auto
  have "entries c' ! (if j < m then j else j - 1) = entries c ! j"
  proof (cases "j < m")
    case True
    then have "j < length (entries c) - 1" using m by linarith
    from nth_skip [OF m this] True show ?thesis by (simp add: ent)
  next
    case False
    with j have jm: "m < j" by simp
    then have "j - 1 < length (entries c) - 1" "\<not> j - 1 < m" "Suc (j - 1) = j"
      using j by linarith+
    with nth_skip [OF m this(1)] False show ?thesis by (simp add: ent)
  qed
  with lt j show "payloads c' ! (if j < m then j else j - 1) = payloads c ! j"
    by (simp add: payloads_nth)
qed

lemma be_bytes_2: "be_bytes 2 v = [word_of_int (drop_bit 8 v), word_of_int v]"
  by (simp add: numeral_2_eq_2)

lemma be_bytes_1: "be_bytes 1 v = [word_of_int v]"
  by simp

lemma be_nat_ffff: "be_nat [0xff, 0xff] = 65535"
  by (simp add: be_nat_Cons be_nat_Nil)

subsection \<open>The length of an inline transaction\<close>

lemma and_255_int: "(x::int) AND 255 = x mod 256"
  using take_bit_eq_mask [of 8 x] by (simp add: take_bit_eq_mod mask_eq_exp_minus_1)

lemma and_255_nat: "(x::nat) AND 255 = x mod 256"
  using take_bit_eq_mask [of 8 x] by (simp add: take_bit_eq_mod mask_eq_exp_minus_1)

lemma push_bit_or_add: "b < 2 ^ n \<Longrightarrow> push_bit n (a::nat) OR b = a * 2 ^ n + b"
proof -
  assume "b < 2 ^ n"
  then have b: "take_bit n b = b" by (simp add: take_bit_eq_mod)
  have "push_bit n a AND take_bit n b = 0"
    by (simp add: bit_eq_iff bit_simps)
  then have "push_bit n a + b = push_bit n a OR b"
    unfolding b by (rule disjunctive_add_eq_or)
  then show ?thesis by (simp add: push_bit_eq_mult)
qed

lemma unat_byte_lt: "unat (b :: byte) < 256"
  using unsigned_less [of b, where ?'a = nat] by simp

lemma unat_byte_of_nat: "unat (of_nat n :: byte) = n mod 256"
  by (simp add: unat_of_nat)

lemma byte_of_nat_cong: "m mod 256 = n mod 256 \<Longrightarrow> (of_nat m :: byte) = of_nat n"
  by (simp add: word_eq_iff_unsigned [where ?'a = nat] unat_of_nat)

lemma data_length_bytes:
  "unpack_HB [b0, b1, b2] = Inr (unat b0 * 256 + unat b1, unat b2)"
  "data_length (unat b0 * 256 + unat b1, unat b2) = unat b0 * 65536 + unat b1 * 256 + unat b2"
proof -
  show "unpack_HB [b0, b1, b2] = Inr (unat b0 * 256 + unat b1, unat b2)"
    by (simp add: unpack_HB_def be_nat_Cons be_nat_Nil)
  show "data_length (unat b0 * 256 + unat b1, unat b2) = unat b0 * 65536 + unat b1 * 256 + unat b2"
    using push_bit_or_add [of "unat b2" 8 "unat b0 * 256 + unat b1"] unat_byte_lt [of b2]
    by (simp add: data_length_def)
qed

lemma pack_HB_length:
  assumes "L < 16777216"
  shows "pack_HB (drop_bit 8 (int L)) (int L AND 0xff)
     = Inr [of_nat (L div 65536), of_nat (L div 256), of_nat L]"
proof -
  have hi: "0 \<le> int L div 256" "int L div 256 < 65536" using assms by simp_all
  have lo: "0 \<le> int L mod 256" "int L mod 256 < 256" by simp_all
  have A: "pack_HB (drop_bit 8 (int L)) (int L AND 0xff)
     = Inr [word_of_int (int L div 256 div 256), word_of_int (int L div 256),
            word_of_int (int L mod 256)]"
    using hi lo
    by (simp add: pack_HB_def pack_be_def and_255_int drop_bit_eq_div be_bytes_2)
  have e1: "int L div 256 div 256 = int (L div 65536)"
    by (simp add: zdiv_int div_mult2_eq)
  have e2: "int L div 256 = int (L div 256)"
    by (simp add: zdiv_int)
  have B1: "(word_of_int (int L div 256 div 256) :: byte) = of_nat (L div 65536)"
    by (simp only: e1 of_int_of_nat_eq)
  have B2: "(word_of_int (int L div 256) :: byte) = of_nat (L div 256)"
    by (simp only: e2 of_int_of_nat_eq)
  have e3: "int L mod 256 = int (L mod 256)"
    by (simp add: zmod_int)
  have "(of_nat (L mod 256) :: byte) = of_nat L"
    by (rule byte_of_nat_cong) simp
  then have B3: "(word_of_int (int L mod 256) :: byte) = of_nat L"
    by (simp only: e3 of_int_of_nat_eq)
  show ?thesis by (simp only: A B1 B2 B3)
qed

subsection \<open>Evaluating the message loop\<close>

lemma contains_init: "\<not> contains (FlaggedArraySet_init n) p"
  by (simp add: contains_def FlaggedArraySet_init_def)

lemma unpack_3I_frame:
  "unpack_3I [a0, a1, a2, a3, b0, b1, b2, b3, c0, c1, c2, c3]
   = Inr (be_nat [a0, a1, a2, a3], be_nat [b0, b1, b2, b3], be_nat [c0, c1, c2, c3])"
  by (simp add: unpack_3I_def)

lemma add_first:
  "0 < n \<Longrightarrow> add (FlaggedArraySet_init n) p False
   = (None, \<lparr>max_size = n, backing_dict = [((p, False), 0)],
             backing_reverse_dict = [(0, (p, False))], offset = 0, total_c = 1, flag_count = 0\<rparr>)"
  by (simp add: add_def contains_def add_loop.simps len_def FlaggedArraySet_init_def)

lemma connect_init_sock:
  "(connect_init a)\<lparr>relay_sock := b\<rparr> = connect_init b" "relay_sock (connect_init a) = a"
  "recv_transaction_cache (connect_init a) = FlaggedArraySet_init 1000"
  "data_recipient (connect_init a) = []"
  by (simp_all add: connect_init_def)

lemma flag_count_init: "flag_count (FlaggedArraySet_init n) = 0"
  by (simp add: FlaggedArraySet_init_def)

section \<open>The block codec\<close>

subsection \<open>Walking a canonical block\<close>








subsection \<open>Sending and receiving one directive\<close>



lemma pack_H_marker: "pack_H 0xffff = Inr [0xff, 0xff]"
  by (simp add: pack_H_def pack_be_def be_bytes_2)

lemma unpack_H_marker: "unpack_H [0xff, 0xff] = Inr 0xffff"
  by (simp add: unpack_H_def be_nat_ffff)



subsection \<open>The block loops over a transaction list\<close>












subsection \<open>Sending and receiving a block\<close>











subsection \<open>The inline branch of the block loops\<close>

lemma inline_length_value:
  fixes b0 b1 b2 :: byte
  shows "push_bit 16 (unat b0) OR push_bit 8 (unat b1) OR unat b2
     = unat b0 * 65536 + unat b1 * 256 + unat b2"
proof -
  note lt = unat_byte_lt [of b0] unat_byte_lt [of b1] unat_byte_lt [of b2]
  have "push_bit 8 (unat b1) OR unat b2 = unat b1 * 256 + unat b2"
    using push_bit_or_add [of "unat b2" 8 "unat b1"] lt by simp
  moreover have "unat b1 * 256 + unat b2 < 2 ^ 16" using lt by simp
  ultimately show ?thesis
    using push_bit_or_add [of "unat b1 * 256 + unat b2" 16 "unat b0"]
    by (simp add: or.assoc)
qed

lemma inline_length_bytes:
  assumes L: "L < 16777216"
  shows "map unat [of_nat (L div 65536), of_nat (L div 256), of_nat L :: byte]
       = [drop_bit 16 L, drop_bit 8 L AND 0xff, L AND 0xff]"
    and "unat (of_nat (L div 65536) :: byte) * 65536 + unat (of_nat (L div 256) :: byte) * 256
         + unat (of_nat L :: byte) = L"
proof -
  have u0: "unat (of_nat (L div 65536) :: byte) = L div 65536"
    using L by (simp add: unat_byte_of_nat)
  have u1: "unat (of_nat (L div 256) :: byte) = L div 256 mod 256"
    by (simp add: unat_byte_of_nat)
  have u2: "unat (of_nat L :: byte) = L mod 256"
    by (simp add: unat_byte_of_nat)
  show "map unat [of_nat (L div 65536), of_nat (L div 256), of_nat L :: byte]
       = [drop_bit 16 L, drop_bit 8 L AND 0xff, L AND 0xff]"
    by (simp add: u0 u1 u2 drop_bit_eq_div and_255_nat)
  have "L div 65536 * 65536 + L div 256 mod 256 * 256 + L mod 256 = L"
  proof -
    have h: "L div 256 div 256 = L div 65536" by (simp add: div_mult2_eq)
    have d1: "L div 256 div 256 * 256 + L div 256 mod 256 = L div 256"
      by (rule div_mult_mod_eq)
    have d2: "L div 256 * 256 + L mod 256 = L"
      by (rule div_mult_mod_eq)
    from h d1 d2 show ?thesis by linarith
  qed
  then show "unat (of_nat (L div 65536) :: byte) * 65536 + unat (of_nat (L div 256) :: byte) * 256
         + unat (of_nat L :: byte) = L"
    by (simp only: u0 u1 u2)
qed

lemma inline_bytes_of_value:
  fixes b0 b1 b2 :: byte
  defines "D \<equiv> unat b0 * 65536 + unat b1 * 256 + unat b2"
  shows "D < 16777216"
    and "[of_nat (D div 65536), of_nat (D div 256), of_nat D] = [b0, b1, b2]"
proof -
  note lt = unat_byte_lt [of b0] unat_byte_lt [of b1] unat_byte_lt [of b2]
  show "D < 16777216" unfolding D_def using lt by linarith
  have d0: "D div 65536 = unat b0" unfolding D_def using lt by simp
  have d1: "D div 256 = unat b0 * 256 + unat b1" unfolding D_def using lt by simp
  have w0: "(of_nat (unat b0) :: byte) = b0" by simp
  have "(of_nat (unat b0 * 256 + unat b1) :: byte) = of_nat (unat b1)"
    by (rule byte_of_nat_cong) simp
  then have w1: "(of_nat (unat b0 * 256 + unat b1) :: byte) = b1" by simp
  have "(of_nat D :: byte) = of_nat (unat b2)"
    unfolding D_def
    by (rule byte_of_nat_cong) (simp add: mod_add_left_eq [symmetric] mod_mult_right_eq)
  then have w2: "(of_nat D :: byte) = b2" by simp
  show "[of_nat (D div 65536), of_nat (D div 256), of_nat D] = [b0, b1, b2]"
    by (simp only: d0 d1 w0 w1 w2)
qed

text \<open>
  The inline branch of the two loops: what \<^verbatim>\<open>provide_block\<close> appends for a transaction that
  the send cache does not hold, and what the receive loop does with the marker and any
  three length bytes.
\<close>

lemma provide_block_directive_inline:
  assumes "get_index c t = None" and "length t < 16777216"
  shows "provide_block_directive c rd t
     = (None, rd @ [0xff, 0xff]
          @ [of_nat (length t div 65536), of_nat (length t div 256), of_nat (length t)] @ t, c)"
  using assms(1) pack_HB_length [OF assms(2)]
  by (simp add: provide_block_directive_def pack_H_marker)

lemma connect_block_loop_inline:
  "connect_block_loop (Suc n) (sock\<lparr>inbound := [0xff, 0xff, b0, b1, b2] @ rest\<rparr>) bd c
   = (if 1000000 < unat b0 * 65536 + unat b1 * 256 + unat b2
      then (Some NameError, sock\<lparr>inbound := rest\<rparr>, bd, c)
      else connect_block_loop n
             (sock\<lparr>inbound := drop (unat b0 * 65536 + unat b1 * 256 + unat b2) rest\<rparr>)
             (bd @ take (unat b0 * 65536 + unat b1 * 256 + unat b2) rest) c)"
  by (simp add: recv_def unpack_H_marker data_length_bytes)

subsection \<open>Blocks of transactions without inputs and outputs\<close>












subsection \<open>Blocks that are and are not accepted\<close>








section \<open>The claims\<close>

text \<open>
  C5. Claim: no sequence of cache operations raises an exception. The code does not
  meet it: on a fresh cache of capacity 1000, \<^verbatim>\<open>add(b'\\x01', True)\<close> stores the entry,
  advances \<^verbatim>\<open>total\<close> and then raises \<^verbatim>\<open>AttributeError\<close> on \<^verbatim>\<open>self.flalg_count\<close>.
\<close>

theorem add_flagged_raises:
  "add (FlaggedArraySet_init 1000) [0x01] True =
     (Some AttributeError,
      \<lparr>max_size = 1000, backing_dict = [(([0x01], True), 0)],
       backing_reverse_dict = [(0, ([0x01], True))], offset = 0, total_c = 1, flag_count = 0\<rparr>)"
  by code_simp

text \<open>
  C2. From any reachable cache, \<^verbatim>\<open>remove(p)\<close> of the payload at external index \<open>i\<close>
  returns normally and leaves the indices dense from 0: the payloads below \<open>i\<close> keep
  their index, those above move down by one, \<^verbatim>\<open>get_by_index\<close> of the new index gives
  the payload back, and the indices in use are exactly \<open>0, \<dots>, len - 1\<close>.
\<close>

theorem remove_keeps_indices_dense:
  assumes r: "reachable c" and gi: "get_index c p = Some i"
  shows "fst (remove c p) = None
     \<and> reachable (snd (remove c p))
     \<and> len (snd (remove c p)) = len c - 1
     \<and> get_index (snd (remove c p)) p = None
     \<and> (\<forall>q j. q \<noteq> p \<and> get_index c q = Some j \<longrightarrow>
           get_index (snd (remove c p)) q = Some (if j < i then j else j - 1)
         \<and> get_by_index (snd (remove c p)) (if j < i then j else j - 1) = Some q)
     \<and> (\<forall>q. get_index c q = None \<longrightarrow> get_index (snd (remove c p)) q = None)
     \<and> (\<forall>k. (\<exists>q. get_index (snd (remove c p)) q = Some k)
             \<longleftrightarrow> 0 \<le> k \<and> k < len (snd (remove c p)))"
proof -
  have inv: "cache_inv c" using r by (rule reachable_cache_inv)
  from gi obtain m where m: "m < length (entries c)" "i = int m" "payloads c ! m = p"
    by (auto simp: get_index_Some_iff [OF inv])
  from remove_present [OF inv m(1)] m(3) obtain c' where run: "remove c p = (None, c')"
    and ent: "entries c' = take m (entries c) @ drop (Suc m) (entries c)"
    and inv': "cache_inv c'"
    by auto
  have c': "snd (remove c p) = c'" using run by simp
  have len': "length (entries c') = length (entries c) - 1"
    using m by (simp add: ent)
  have d: "distinct (payloads c)" using inv by (simp add: cache_inv_def)
  have pay': "payloads c' = take m (payloads c) @ drop (Suc m) (payloads c)"
    using ent by (rule payloads_skip)
  have p_gone: "p \<notin> set (payloads c')"
  proof -
    have "payloads c = take m (payloads c) @ p # drop (Suc m) (payloads c)"
      using m id_take_nth_drop [of m "payloads c"] by (simp add: length_payloads)
    with d have "distinct (take m (payloads c) @ p # drop (Suc m) (payloads c))" by simp
    then show ?thesis by (simp add: pay')
  qed
  have sub: "set (payloads c') \<subseteq> set (payloads c)"
    unfolding pay' using set_take_subset [of m "payloads c"] set_drop_subset [of "Suc m" "payloads c"]
    by auto
  have moved: "get_index c' q = Some (if j < i then j else j - 1)
         \<and> get_by_index c' (if j < i then j else j - 1) = Some q"
    if "q \<noteq> p" "get_index c q = Some j" for q j
  proof -
    from that(2) obtain n where n: "n < length (entries c)" "j = int n" "payloads c ! n = q"
      by (auto simp: get_index_Some_iff [OF inv])
    with that(1) m have nm: "n \<noteq> m" by auto
    let ?n' = "if n < m then n else n - 1"
    from payloads_after_remove [OF inv m(1) ent n(1) nm]
    have lt: "?n' < length (entries c')" and same: "payloads c' ! ?n' = q"
      using n by simp_all
    have idx: "(if j < i then j else j - 1) = int ?n'"
      using n m nm by auto
    have "get_index c' q = Some (int ?n')"
      using get_index_present [OF inv' lt] same by simp
    moreover have "get_by_index c' (int ?n') = Some q"
      using lt same by (simp add: get_by_index_inv [OF inv'] len_entries)
    ultimately show ?thesis by (simp only: idx)
  qed
  have absent: "get_index c' q = None" if "get_index c q = None" for q
  proof -
    have "q \<notin> set (payloads c)"
    proof
      assume "q \<in> set (payloads c)"
      then obtain n where "n < length (entries c)" "payloads c ! n = q"
        by (auto simp: in_set_conv_nth length_payloads)
      with get_index_present [OF inv this(1)] that show False by simp
    qed
    with sub have "q \<notin> set (payloads c')" by auto
    then show ?thesis by (rule get_index_absent)
  qed
  have dense: "(\<exists>q. get_index c' q = Some k) \<longleftrightarrow> 0 \<le> k \<and> k < len c'" for k
  proof
    assume "\<exists>q. get_index c' q = Some k"
    then obtain q where "get_index c' q = Some k" by blast
    with get_index_bound [OF inv' this] show "0 \<le> k \<and> k < len c'" by simp
  next
    assume k: "0 \<le> k \<and> k < len c'"
    then have "nat k < length (entries c')" unfolding len_entries by linarith
    from get_index_present [OF inv' this] k
    show "\<exists>q. get_index c' q = Some k" by auto
  qed
  have "reachable (snd (remove c p))" using r by (rule reachable_remove)
  moreover have "len c' = len c - 1" using len' m by (simp add: len_entries)
  moreover have "get_index c' p = None" using p_gone by (rule get_index_absent)
  ultimately show ?thesis
    unfolding c' using run moved absent dense by simp
qed

theorem remove_keeps_indices_dense_witness:
  "reachable (snd (add (snd (add (snd (add (FlaggedArraySet_init 1000) [1] False)) [2] False)) [3] False))
   \<and> get_index (snd (add (snd (add (snd (add (FlaggedArraySet_init 1000) [1] False)) [2] False)) [3] False)) [2] = Some 1
   \<and> fst (remove (snd (add (snd (add (snd (add (FlaggedArraySet_init 1000) [1] False)) [2] False)) [3] False)) [2]) = None
   \<and> get_index (snd (remove (snd (add (snd (add (snd (add (FlaggedArraySet_init 1000) [1] False)) [2] False)) [3] False)) [2])) [1] = Some 0
   \<and> get_index (snd (remove (snd (add (snd (add (snd (add (FlaggedArraySet_init 1000) [1] False)) [2] False)) [3] False)) [2])) [3] = Some 1
   \<and> get_by_index (snd (remove (snd (add (snd (add (snd (add (FlaggedArraySet_init 1000) [1] False)) [2] False)) [3] False)) [2])) 1 = Some [3]"
proof -
  let ?C = "snd (add (snd (add (snd (add (FlaggedArraySet_init 1000) [1] False)) [2] False)) [3] False)"
  have r: "reachable ?C" by (intro reachable.intros)
  have g: "get_index ?C [2] = Some 1" by code_simp
  have g1: "[1] \<noteq> [2::byte] \<and> get_index ?C [1] = Some 0" by code_simp
  have g3: "[3] \<noteq> [2::byte] \<and> get_index ?C [3] = Some 2" by code_simp
  note T = remove_keeps_indices_dense [OF r g]
  note mv = T [THEN conjunct2, THEN conjunct2, THEN conjunct2, THEN conjunct2, THEN conjunct1,
      rule_format]
  from mv [OF g1] mv [OF g3] T [THEN conjunct1] r g show ?thesis by simp
qed

text \<open>
  C10. When \<^verbatim>\<open>provide_block\<close> finds a transaction in a reachable send cache of capacity
  1000, the directive it appends is the two big-endian bytes of the external index, the
  index is below 1000, the peer's \<^verbatim>\<open>unpack('>H', ...)\<close> reads the same index, and neither
  the index nor its bytes are the inline marker \<^verbatim>\<open>0xffff\<close>. The cache after the removal is
  reachable with the same capacity, so this holds for every directive of the loop.
\<close>

theorem cached_directive_is_never_inline:
  assumes r: "reachable c" and cap: "max_size c = 1000" and gi: "get_index c tx = Some i"
  shows "0 \<le> i \<and> i < 1000
     \<and> provide_block_directive c relay_data tx
         = (None, relay_data @ be_bytes 2 i, snd (remove c tx))
     \<and> unpack_H (be_bytes 2 i) = Inr (nat i) \<and> nat i \<noteq> 0xffff
     \<and> be_bytes 2 i \<noteq> [0xff, 0xff]
     \<and> reachable (snd (remove c tx)) \<and> max_size (snd (remove c tx)) = 1000"
proof -
  have inv: "cache_inv c" using r by (rule reachable_cache_inv)
  from get_index_bound [OF inv gi] cap have i: "0 \<le> i" "i < 1000" by simp_all
  then have i16: "i < 65536" by simp
  note pk = pack_H_ok [OF i(1) i16]
  from gi obtain m where m: "m < length (entries c)" "payloads c ! m = tx"
    by (auto simp: get_index_Some_iff [OF inv])
  from remove_present [OF inv m(1)] m(2) obtain c' where rm: "remove c tx = (None, c')"
    by auto
  have dir: "provide_block_directive c relay_data tx
         = (None, relay_data @ be_bytes 2 i, snd (remove c tx))"
    using gi pk(1) rm by (simp add: provide_block_directive_def)
  have ne: "be_bytes 2 i \<noteq> [0xff, 0xff]"
  proof
    assume "be_bytes 2 i = [0xff, 0xff]"
    then have "unpack_H (be_bytes 2 i) = Inr 65535"
      by (simp add: unpack_H_def be_nat_ffff)
    with pk(2) i show False by simp
  qed
  have "reachable (snd (remove c tx))" using r by (rule reachable_remove)
  moreover have "max_size (snd (remove c tx)) = 1000"
    using max_size_remove [OF inv] cap by simp
  ultimately show ?thesis using i dir pk(2) ne by simp
qed

theorem cached_directive_is_never_inline_witness:
  "reachable (snd (add (snd (add (FlaggedArraySet_init 1000) [1] False)) [2] False))
   \<and> max_size (snd (add (snd (add (FlaggedArraySet_init 1000) [1] False)) [2] False)) = 1000
   \<and> get_index (snd (add (snd (add (FlaggedArraySet_init 1000) [1] False)) [2] False)) [2] = Some 1
   \<and> provide_block_directive
        (snd (add (snd (add (FlaggedArraySet_init 1000) [1] False)) [2] False)) [] [2]
       = (None, [0, 1],
          snd (remove (snd (add (snd (add (FlaggedArraySet_init 1000) [1] False)) [2] False)) [2]))
   \<and> unpack_H [0, 1] = Inr 1"
proof -
  let ?C = "snd (add (snd (add (FlaggedArraySet_init 1000) [1] False)) [2] False)"
  have r: "reachable ?C" by (intro reachable.intros)
  have cap: "max_size ?C = 1000" by code_simp
  have g: "get_index ?C [2] = Some 1" by code_simp
  have b: "be_bytes 2 1 = [0, 1]" by code_simp
  from cached_directive_is_never_inline [OF r cap g, of "[]"] r cap g show ?thesis
    by (simp add: b)
qed

text \<open>
  C9. Claim: for every absent payload, \<^verbatim>\<open>add(p, True)\<close> raises after mutating the state, and
  \<^verbatim>\<open>flag_count\<close> is unchanged. As stated it fails: the overflow eviction inside \<^verbatim>\<open>add\<close>
  decrements \<^verbatim>\<open>flag_count\<close> when the entry it evicts is flagged. On a cache of capacity 1
  that holds the flagged entry left by an earlier \<^verbatim>\<open>add(b'\\x01', True)\<close>, the call
  \<^verbatim>\<open>add(b'\\x02', True)\<close> raises and takes \<^verbatim>\<open>flag_count\<close> from 0 to -1.
\<close>

theorem add_flagged_changes_flag_count:
  "\<not> contains (snd (add (FlaggedArraySet_init 1) [1] True)) [2]
   \<and> fst (add (snd (add (FlaggedArraySet_init 1) [1] True)) [2] True) = Some AttributeError
   \<and> flag_count (snd (add (FlaggedArraySet_init 1) [1] True)) = 0
   \<and> flag_count (snd (add (snd (add (FlaggedArraySet_init 1) [1] True)) [2] True)) = - 1"
  by code_simp

text \<open>
  C9, amended. In a reachable cache of capacity at least 1, \<^verbatim>\<open>add(p, True)\<close> of an absent
  payload raises \<^verbatim>\<open>AttributeError\<close> and leaves a changed cache: it contains \<open>p\<close>,
  \<^verbatim>\<open>total\<close> has advanced by one, and \<^verbatim>\<open>flag_count\<close> is what it was, less one exactly when
  the cache was full and the oldest entry, which the call evicted, was flagged.
\<close>

theorem add_flagged_mutates_then_raises:
  assumes r: "reachable c" and cap: "0 < max_size c" and fresh: "\<not> contains c p"
  shows "fst (add c p True) = Some AttributeError
     \<and> contains (snd (add c p True)) p
     \<and> total_c (snd (add c p True)) = total_c c + 1
     \<and> snd (add c p True) \<noteq> c
     \<and> flag_count (snd (add c p True))
         = flag_count c - (if max_size c \<le> len c \<and> snd (fst (hd (backing_dict c))) then 1 else 0)"
proof -
  have inv: "cache_inv c" using r by (rule reachable_cache_inv)
  from add_absent [OF inv fresh cap, of True] obtain c' where
    run: "add c p True = (Some AttributeError, c')"
    and ent: "entries c' = (if max_size c \<le> len c then tl (entries c) else entries c) @ [(p, True)]"
    and tot: "total_c c' = total_c c + 1"
    and fl: "flag_count c' = flag_count c - (if max_size c \<le> len c \<and> snd (hd (entries c)) then 1 else 0)"
    by auto
  have "p \<in> set (payloads c')" by (simp add: payloads_def ent)
  then have "contains c' p" by (simp add: contains_iff)
  moreover have "c' \<noteq> c" using tot by auto
  moreover have "hd (entries c) = fst (hd (backing_dict c))" if "max_size c \<le> len c"
  proof -
    from that cap have "backing_dict c \<noteq> []" by (auto simp: len_def)
    then show ?thesis by (simp add: entries_def hd_map)
  qed
  ultimately show ?thesis using run tot fl by auto
qed

theorem add_flagged_mutates_then_raises_witness:
  "reachable (FlaggedArraySet_init 1000) \<and> 0 < max_size (FlaggedArraySet_init 1000)
   \<and> \<not> contains (FlaggedArraySet_init 1000) [1]
   \<and> fst (add (FlaggedArraySet_init 1000) [1] True) = Some AttributeError
   \<and> contains (snd (add (FlaggedArraySet_init 1000) [1] True)) [1]
   \<and> total_c (snd (add (FlaggedArraySet_init 1000) [1] True)) = 1
   \<and> flag_count (snd (add (FlaggedArraySet_init 1000) [1] True)) = 0"
proof -
  have r: "reachable (FlaggedArraySet_init 1000)" by (rule reachable_init)
  have cap: "0 < max_size (FlaggedArraySet_init 1000)" by (simp add: FlaggedArraySet_init_def)
  have fresh: "\<not> contains (FlaggedArraySet_init 1000) [1]"
    by (simp add: FlaggedArraySet_init_def contains_def)
  have v: "total_c (FlaggedArraySet_init 1000) = 0" "flag_count (FlaggedArraySet_init 1000) = 0"
    "len (FlaggedArraySet_init 1000) = 0" "max_size (FlaggedArraySet_init 1000) = 1000"
    by (simp_all add: FlaggedArraySet_init_def len_def)
  from add_flagged_mutates_then_raises [OF r cap fresh] r cap fresh show ?thesis
    by (simp add: v)
qed

text \<open>
  C6. The three length bytes of an inline transaction are a 24-bit big-endian number.
  For a transaction of length \<open>L \<le> 16777215\<close> that the send cache does not hold,
  \<^verbatim>\<open>provide_block\<close> appends the marker \<^verbatim>\<open>ff ff\<close>, the three bytes \<open>L >> 16\<close>,
  \<open>(L >> 8) & 0xff\<close>, \<open>L & 0xff\<close> and the transaction; the receive branch decodes these
  three bytes to \<open>L\<close>, and its loop, fed what the compressor appended, reads the
  transaction back when \<open>L \<le> 1000000\<close> and stops at its size check otherwise. On the marker
  and any three bytes \<open>b0 b1 b2\<close> the receive loop works with the length
  \<open>(b0 << 16) | (b1 << 8) | b2\<close>: it stops when the length exceeds 1000000 and reads that
  many bytes otherwise; and for a transaction of exactly that length the compressor
  appends \<open>b0 b1 b2\<close>.
\<close>

theorem inline_length_is_24_bits:
  assumes absent: "get_index c t = None" and L: "length t \<le> 16777215"
  shows "(\<exists>bs hb. provide_block_directive c relay_data t
              = (None, relay_data @ [0xff, 0xff] @ bs @ t, c)
            \<and> map unat bs
              = [drop_bit 16 (length t), drop_bit 8 (length t) AND 0xff, length t AND 0xff]
            \<and> unpack_HB bs = Inr hb \<and> data_length hb = length t
            \<and> connect_block_loop (Suc n) (sock\<lparr>inbound := [0xff, 0xff] @ bs @ t @ rest\<rparr>) bd rc
              = (if 1000000 < length t then (Some NameError, sock\<lparr>inbound := t @ rest\<rparr>, bd, rc)
                 else connect_block_loop n (sock\<lparr>inbound := rest\<rparr>) (bd @ t) rc))
     \<and> (\<exists>D. D = push_bit 16 (unat b0) OR push_bit 8 (unat b1) OR unat b2
            \<and> D \<le> 16777215
            \<and> connect_block_loop (Suc n) (sock\<lparr>inbound := [0xff, 0xff, b0, b1, b2] @ rest\<rparr>) bd rc
              = (if 1000000 < D then (Some NameError, sock\<lparr>inbound := rest\<rparr>, bd, rc)
                 else connect_block_loop n (sock\<lparr>inbound := drop D rest\<rparr>) (bd @ take D rest) rc)
            \<and> (length t = D \<longrightarrow>
                 provide_block_directive c relay_data t
                   = (None, relay_data @ [0xff, 0xff, b0, b1, b2] @ t, c)))"
proof
  let ?L = "length t"
  let ?bs = "[of_nat (?L div 65536), of_nat (?L div 256), of_nat ?L] :: bytes"
  let ?hb = "(unat (of_nat (?L div 65536) :: byte) * 256 + unat (of_nat (?L div 256) :: byte),
              unat (of_nat ?L :: byte))"
  have lt: "?L < 16777216" using L by simp
  note val = inline_length_bytes [OF lt]
  have c1: "provide_block_directive c relay_data t
      = (None, relay_data @ [0xff, 0xff] @ ?bs @ t, c)"
    using absent lt by (rule provide_block_directive_inline)
  have c3: "unpack_HB ?bs = Inr ?hb" by (rule data_length_bytes(1))
  have c4: "data_length ?hb = ?L"
    using data_length_bytes(2) [of "of_nat (?L div 65536)" "of_nat (?L div 256)" "of_nat ?L"]
    by (simp only: val(2))
  have "connect_block_loop (Suc n)
          (sock\<lparr>inbound := [0xff, 0xff, of_nat (?L div 65536), of_nat (?L div 256), of_nat ?L]
             @ (t @ rest)\<rparr>) bd rc
      = (if 1000000 < ?L then (Some NameError, sock\<lparr>inbound := t @ rest\<rparr>, bd, rc)
         else connect_block_loop n (sock\<lparr>inbound := drop ?L (t @ rest)\<rparr>)
                (bd @ take ?L (t @ rest)) rc)"
    using connect_block_loop_inline
      [where n = n and sock = sock and ?b0.0 = "of_nat (?L div 65536)"
         and ?b1.0 = "of_nat (?L div 256)" and ?b2.0 = "of_nat ?L" and rest = "t @ rest"
         and bd = bd and c = rc]
    by (simp only: val(2))
  then have c5: "connect_block_loop (Suc n) (sock\<lparr>inbound := [0xff, 0xff] @ ?bs @ t @ rest\<rparr>) bd rc
      = (if 1000000 < ?L then (Some NameError, sock\<lparr>inbound := t @ rest\<rparr>, bd, rc)
         else connect_block_loop n (sock\<lparr>inbound := rest\<rparr>) (bd @ t) rc)"
    by simp
  show "\<exists>bs hb. provide_block_directive c relay_data t
              = (None, relay_data @ [0xff, 0xff] @ bs @ t, c)
            \<and> map unat bs
              = [drop_bit 16 (length t), drop_bit 8 (length t) AND 0xff, length t AND 0xff]
            \<and> unpack_HB bs = Inr hb \<and> data_length hb = length t
            \<and> connect_block_loop (Suc n) (sock\<lparr>inbound := [0xff, 0xff] @ bs @ t @ rest\<rparr>) bd rc
              = (if 1000000 < length t then (Some NameError, sock\<lparr>inbound := t @ rest\<rparr>, bd, rc)
                 else connect_block_loop n (sock\<lparr>inbound := rest\<rparr>) (bd @ t) rc)"
    by (intro exI [of _ ?bs] exI [of _ ?hb] conjI) (fact c1 val(1) c3 c4 c5)+
next
  let ?D = "unat b0 * 65536 + unat b1 * 256 + unat b2"
  note bv = inline_bytes_of_value [of b0 b1 b2]
  have d1: "?D = push_bit 16 (unat b0) OR push_bit 8 (unat b1) OR unat b2"
    by (rule inline_length_value [symmetric])
  have d2: "?D \<le> 16777215" using bv(1) by linarith
  have d3: "connect_block_loop (Suc n) (sock\<lparr>inbound := [0xff, 0xff, b0, b1, b2] @ rest\<rparr>) bd rc
      = (if 1000000 < ?D then (Some NameError, sock\<lparr>inbound := rest\<rparr>, bd, rc)
         else connect_block_loop n (sock\<lparr>inbound := drop ?D rest\<rparr>) (bd @ take ?D rest) rc)"
    by (rule connect_block_loop_inline)
  have d4: "length t = ?D \<longrightarrow>
      provide_block_directive c relay_data t
        = (None, relay_data @ [0xff, 0xff, b0, b1, b2] @ t, c)"
  proof
    assume e: "length t = ?D"
    have lt: "length t < 16777216" using L by simp
    have "[of_nat (length t div 65536), of_nat (length t div 256), of_nat (length t)]
        = [b0, b1, b2]"
      unfolding e by (rule bv(2))
    with provide_block_directive_inline [OF absent lt, of relay_data]
    show "provide_block_directive c relay_data t
        = (None, relay_data @ [0xff, 0xff, b0, b1, b2] @ t, c)"
      by simp
  qed
  show "\<exists>D. D = push_bit 16 (unat b0) OR push_bit 8 (unat b1) OR unat b2
            \<and> D \<le> 16777215
            \<and> connect_block_loop (Suc n) (sock\<lparr>inbound := [0xff, 0xff, b0, b1, b2] @ rest\<rparr>) bd rc
              = (if 1000000 < D then (Some NameError, sock\<lparr>inbound := rest\<rparr>, bd, rc)
                 else connect_block_loop n (sock\<lparr>inbound := drop D rest\<rparr>) (bd @ take D rest) rc)
            \<and> (length t = D \<longrightarrow>
                 provide_block_directive c relay_data t
                   = (None, relay_data @ [0xff, 0xff, b0, b1, b2] @ t, c))"
    by (intro exI [of _ ?D] conjI) (fact d1 d2 d3 d4)+
qed

theorem inline_length_is_24_bits_witness:
  "get_index (FlaggedArraySet_init 1000) (replicate 70000 0) = None
   \<and> length (replicate 70000 0 :: bytes) \<le> 16777215
   \<and> provide_block_directive (FlaggedArraySet_init 1000) [] (replicate 70000 0)
     = (None, [0xff, 0xff, 0x01, 0x11, 0x70] @ replicate 70000 0, FlaggedArraySet_init 1000)
   \<and> connect_block_loop (Suc 0)
        \<lparr>inbound = [0xff, 0xff, 0x01, 0x11, 0x70] @ replicate 70000 0 @ [7],
         outbound = [], writable = True\<rparr> [] (FlaggedArraySet_init 1000)
     = (None, \<lparr>inbound = [7], outbound = [], writable = True\<rparr>, replicate 70000 0,
        FlaggedArraySet_init 1000)"
proof -
  define t :: bytes where "t = replicate 70000 0"
  define c where "c = FlaggedArraySet_init 1000"
  define sock where "sock = \<lparr>inbound = [], outbound = [], writable = True\<rparr>"
  have a: "get_index c t = None"
    by (simp add: get_index_def c_def FlaggedArraySet_init_def)
  have l: "length t \<le> 16777215" by (simp add: t_def)
  have v: "push_bit 16 (unat (0x01 :: byte)) OR push_bit 8 (unat (0x11 :: byte))
      OR unat (0x70 :: byte) = length t"
    by (simp add: inline_length_value t_def)
  from inline_length_is_24_bits [OF a l, where relay_data = "[]" and n = 0 and sock = sock
      and rest = "t @ [7]" and bd = "[]" and rc = c and ?b0.0 = "0x01" and ?b1.0 = "0x11"
      and ?b2.0 = "0x70"]
  obtain D where D: "D = push_bit 16 (unat (0x01 :: byte)) OR push_bit 8 (unat (0x11 :: byte))
      OR unat (0x70 :: byte)"
    and rcv: "connect_block_loop (Suc 0) (sock\<lparr>inbound := [0xff, 0xff, 0x01, 0x11, 0x70] @ t @ [7]\<rparr>)
        [] c
      = (if 1000000 < D then (Some NameError, sock\<lparr>inbound := t @ [7]\<rparr>, [], c)
         else connect_block_loop 0 (sock\<lparr>inbound := drop D (t @ [7])\<rparr>) ([] @ take D (t @ [7])) c)"
    and snd: "length t = D \<longrightarrow>
       provide_block_directive c [] t = (None, [] @ [0xff, 0xff, 0x01, 0x11, 0x70] @ t, c)"
    by blast
  have DL: "D = length t" using D v by simp
  have D7: "D = 70000" using DL by (simp add: t_def)
  from snd DL have s: "provide_block_directive c [] t = (None, [0xff, 0xff, 0x01, 0x11, 0x70] @ t, c)"
    by simp
  have tk: "take D (t @ [7]) = t" "drop D (t @ [7]) = [7]" by (simp_all add: DL)
  have "\<not> 1000000 < D" using D7 by simp
  with rcv have r: "connect_block_loop (Suc 0)
        \<lparr>inbound = [0xff, 0xff, 0x01, 0x11, 0x70] @ t @ [7], outbound = [], writable = True\<rparr> [] c
      = (None, \<lparr>inbound = [7], outbound = [], writable = True\<rparr>, t, c)"
    by (simp only: tk if_False) (simp add: sock_def)
  from a l s r show ?thesis unfolding t_def c_def by simp
qed

text \<open>
  C3. Claim: an admission rejection in \<^verbatim>\<open>provide_transaction\<close> is a silent drop, also when
  the length exceeds \<^verbatim>\<open>MAX_RELAY_TRANSACTION_BYTES\<close> and the flag count is consulted. The code
  does not meet it: for a transaction of 10001 bytes that the send cache does not hold,
  the flag-count comparison names the unbound global \<^verbatim>\<open>MAX_EXTRA_OVERSIZE_TRANSACTIONS\<close> and
  the call raises \<^verbatim>\<open>NameError\<close> to its caller; nothing is sent or cached.
\<close>

theorem provide_transaction_raises_NameError:
  "provide_transaction
     (connect_init \<lparr>inbound = [], outbound = [], writable = True\<rparr>) (replicate 10001 0)
   = (Some NameError, connect_init \<lparr>inbound = [], outbound = [], writable = True\<rparr>)"
  by (simp add: provide_transaction_def connect_init_def contains_init
      MAX_RELAY_TRANSACTION_BYTES_def MAX_RELAY_OVERSIZE_TRANSACTION_BYTES_def)

text \<open>
  C4. Claim: an admitted inbound transaction is cached with the flag \<open>len > 10000\<close>. The
  code does not meet it: the flag it passes is \<open>len > 250000\<close>, which admission has
  already excluded. A \<^verbatim>\<open>TRANSACTION\<close> message of 10001 bytes on a fresh connection is
  admitted, cached with the flag false and \<^verbatim>\<open>flag_count\<close> 0, and forwarded.
\<close>

theorem received_oversize_transaction_is_not_flagged:
  "connect_loop_body
     (connect_init
        \<lparr>inbound = [0xf2, 0xbe, 0xef, 0x42, 0, 0, 0, 2, 0, 0, 0x27, 0x11] @ replicate 10001 0,
         outbound = [], writable = True\<rparr>)
   = (None,
      (connect_init \<lparr>inbound = [], outbound = [], writable = True\<rparr>)
      \<lparr>recv_transaction_cache :=
         \<lparr>max_size = 1000, backing_dict = [((replicate 10001 0, False), 0)],
          backing_reverse_dict = [(0, (replicate 10001 0, False))], offset = 0, total_c = 1,
          flag_count = 0\<rparr>,
       data_recipient := [Provide_transaction (replicate 10001 0)]\<rparr>)"
proof -
  have hdr: "unpack_3I [0xf2, 0xbe, 0xef, 0x42, 0, 0, 0, 2, 0, 0, 0x27, 0x11]
      = Inr (MAGIC_BYTES, TRANSACTION_TYPE, 10001)"
    by (simp add: unpack_3I_frame be_nat_Cons be_nat_Nil MAGIC_BYTES_def TRANSACTION_TYPE_def)
  have tr: "connect_transaction
      (connect_init \<lparr>inbound = replicate 10001 0, outbound = [], writable = True\<rparr>) 10001
    = (None,
      (connect_init \<lparr>inbound = [], outbound = [], writable = True\<rparr>)
      \<lparr>recv_transaction_cache :=
         \<lparr>max_size = 1000, backing_dict = [((replicate 10001 0, False), 0)],
          backing_reverse_dict = [(0, (replicate 10001 0, False))], offset = 0, total_c = 1,
          flag_count = 0\<rparr>,
       data_recipient := [Provide_transaction (replicate 10001 0)]\<rparr>)"
    by (simp add: connect_transaction_def connect_init_sock recv_def add_first
        get_flag_count_def flag_count_init MAX_RELAY_TRANSACTION_BYTES_def
        MAX_RELAY_OVERSIZE_TRANSACTION_BYTES_def MAX_EXTRA_OVERSIZE_TRANSACTIONS_def)
  show ?thesis
    by (simp add: connect_loop_body_def connect_init_sock recv_def hdr tr
        MAGIC_BYTES_def VERSION_TYPE_def BLOCK_TYPE_def TRANSACTION_TYPE_def)
qed

text \<open>
  C7. Claim: an inline directive whose length exceeds 1000000 raises a protocol error
  before the transaction bytes are read. The code stops before reading them, but what
  it raises is \<^verbatim>\<open>NameError\<close>: the message of the \<^verbatim>\<open>ProtocolError\<close> is built from the unbound
  name \<^verbatim>\<open>dat_length\<close>. For a \<^verbatim>\<open>BLOCK\<close> of one transaction whose directive is
  \<^verbatim>\<open>ff ff 0f 42 41\<close> (length 1000001), the loop ends with \<^verbatim>\<open>NameError\<close>, handled by the
  clause for unknown errors, and the bytes after the length are still unread.
\<close>

theorem oversize_inline_length_raises_NameError:
  "fst (connect_loop_body
     (connect_init
        \<lparr>inbound = [0xf2, 0xbe, 0xef, 0x42, 0, 0, 0, 1, 0, 0, 0, 1] @ replicate 80 0
                     @ [0xff, 0xff, 0x0f, 0x42, 0x41] @ [1, 2, 3],
         outbound = [], writable = True\<rparr>)) = Some NameError
   \<and> inbound (relay_sock (snd (connect_loop_body
     (connect_init
        \<lparr>inbound = [0xf2, 0xbe, 0xef, 0x42, 0, 0, 0, 1, 0, 0, 0, 1] @ replicate 80 0
                     @ [0xff, 0xff, 0x0f, 0x42, 0x41] @ [1, 2, 3],
         outbound = [], writable = True\<rparr>)))) = [1, 2, 3]
   \<and> data_length (0x0f42, 0x41) = 1000001
   \<and> connect_except NameError = Unknown_error"
proof -
  have hdr: "unpack_3I [0xf2, 0xbe, 0xef, 0x42, 0, 0, 0, 1, 0, 0, 0, 1]
      = Inr (MAGIC_BYTES, BLOCK_TYPE, 1)"
    by (simp add: unpack_3I_frame be_nat_Cons be_nat_Nil MAGIC_BYTES_def BLOCK_TYPE_def)
  have dl: "data_length (0x0f42, 0x41) = 1000001"
    using push_bit_or_add [of "0x41" 8 "0x0f42"] by (simp add: data_length_def)
  have hb: "unpack_HB [0x0f, 0x42, 0x41] = Inr (0x0f42, 0x41)"
    by (simp add: unpack_HB_def be_nat_Cons be_nat_Nil)
  have mk: "unpack_H [0xff, 0xff] = Inr 0xffff"
    by (simp add: unpack_H_def be_nat_Cons be_nat_Nil)
  have bd: "connect_block_data (replicate 80 0) (Suc 0) = Inr (replicate 80 0 @ [1])"
    by (simp add: connect_block_data_def pack_be_def)
  have blk: "connect_block (connect_init
        \<lparr>inbound = replicate 80 0 @ [0xff, 0xff, 0x0f, 0x42, 0x41, 1, 2, 3],
         outbound = [], writable = True\<rparr>) (Suc 0)
     = (Some NameError,
        (connect_init \<lparr>inbound = [1, 2, 3], outbound = [], writable = True\<rparr>)
        \<lparr>data_recipient := [Provide_block_header (replicate 80 0)]\<rparr>)"
    by (simp add: connect_block_def connect_init_sock recv_def bd mk hb dl Let_def
        connect_init_def)
  have "connect_loop_body
     (connect_init
        \<lparr>inbound = [0xf2, 0xbe, 0xef, 0x42, 0, 0, 0, 1, 0, 0, 0, 1] @ replicate 80 0
                     @ [0xff, 0xff, 0x0f, 0x42, 0x41] @ [1, 2, 3],
         outbound = [], writable = True\<rparr>)
     = (Some NameError,
        (connect_init \<lparr>inbound = [1, 2, 3], outbound = [], writable = True\<rparr>)
        \<lparr>data_recipient := [Provide_block_header (replicate 80 0)]\<rparr>)"
    by (simp add: connect_loop_body_def connect_init_sock recv_def hdr blk
        MAGIC_BYTES_def VERSION_TYPE_def BLOCK_TYPE_def)
  then show ?thesis
    by (simp add: dl connect_except_def connect_init_def)
qed







end
